theory Spec2Isabelle
  imports Main "HOL-Library.AList"
begin

section \<open>The Star Wars graph: Cypher upserts and the crawl loop of SWAPI.ipynb\<close>

text \<open>
  The notebook builds a property graph in Neo4j from JSON documents of a REST API. Its
  program text is six parameterised Cypher queries (\<open>CREATE_MOVIE_QUERY\<close>,
  \<open>CREATE_PERSON_QUERY\<close>, \<open>CREATE_PLANET_QUERY\<close>, \<open>CREATE_SPECIES_QUERY\<close>,
  \<open>CREATE_STARSHIP_QUERY\<close>, \<open>CREATE_VEHICLE_QUERY\<close>), the query
  \<open>FIND_NEW_ENTITY_QUERY\<close>, the function \<open>getQueryForLabel\<close> and two loops (the film
  seed and the crawl). Each query is a value handed to \<open>graph.run\<close> together with the
  fetched document; the model keeps that shape: a query is a value of type \<open>query\<close>
  that lists the clauses of the Cypher text in order, and \<open>graph_run\<close> executes it
  on a store, clause by clause, over the rows the clauses produce.
\<close>

subsection \<open>Documents, errors, the store\<close>

text \<open>
  A document is the dictionary \<open>r.json()\<close> returns: a field is absent (\<open>None\<close>), JSON
  null, a string, an integer, or a list of strings (the API's lists hold URLs).
\<close>

datatype val = VNull | VStr string | VInt int | VList "string list"

type_synonym params = "string \<Rightarrow> val option"

text \<open>
  Every exception the Python cell can see is a value. The first three are raised by the
  database and roll the transaction of \<open>graph.run\<close> back; \<open>ValueError\<close> is raised by
  \<open>getQueryForLabel\<close>; \<open>InvalidURL\<close> stands for the exceptions with which
  \<open>requests.get\<close> refuses a URL before it sends anything (\<open>MissingSchema\<close>,
  \<open>InvalidSchema\<close>, \<open>InvalidURL\<close>), \<open>RequestFailed\<close> for any other exception of
  \<open>requests.get\<close> or \<open>r.json()\<close>.
\<close>

datatype error =
    ParameterMissing string
  | MergeNullProperty string
  | TypeError string
  | ValueError "string option"
  | InvalidURL val
  | RequestFailed

text \<open>
  A node carries labels and properties; its identity is its position in \<open>nodes\<close> (nodes
  are never deleted, so a position is stable). A relationship is (start, type, end).
  The relationships are kept in creation order; the store is read as holding at most
  one relationship of a type between two nodes, which is all \<open>CREATE UNIQUE\<close>, the only
  clause of the notebook that creates relationships, ever produces.
\<close>

record node =
  labels :: "string list"
  props :: "(string \<times> val) list"

record graph =
  nodes :: "node list"
  rels :: "(nat \<times> string \<times> nat) list"

definition empty_graph :: graph where
  "empty_graph = \<lparr>nodes = [], rels = []\<rparr>"

definition has_label :: "string \<Rightarrow> node \<Rightarrow> bool" where
  "has_label l n = (l \<in> set (labels n))"

text \<open>A property that is not set reads as null, as in Cypher.\<close>

definition prop_of :: "string \<Rightarrow> node \<Rightarrow> val" where
  "prop_of k n = (case map_of (props n) k of None \<Rightarrow> VNull | Some v \<Rightarrow> v)"

text \<open>\<open>SET n.k = v\<close>: setting a property to null removes it.\<close>

definition set_prop :: "string \<Rightarrow> val \<Rightarrow> node \<Rightarrow> node" where
  "set_prop k v n =
     n\<lparr>props := (if v = VNull then AList.delete k (props n) else AList.update k v (props n))\<rparr>"

definition remove_label :: "string \<Rightarrow> node \<Rightarrow> node" where
  "remove_label l n = n\<lparr>labels := removeAll l (labels n)\<rparr>"

definition update_node :: "nat \<Rightarrow> (node \<Rightarrow> node) \<Rightarrow> graph \<Rightarrow> graph" where
  "update_node i f g = g\<lparr>nodes := (nodes g)[i := f (nodes g ! i)]\<rparr>"

definition add_node :: "node \<Rightarrow> graph \<Rightarrow> graph" where
  "add_node n g = g\<lparr>nodes := nodes g @ [n]\<rparr>"

subsection \<open>Expressions of the queries\<close>

text \<open>
  The queries use three expressions: a parameter \<open>{k}\<close>, \<open>toInt(e)\<close> and
  \<open>split(e, ",")\<close>. Cypher's \<open>split\<close> keeps every piece, empty ones included, and
  does not trim; on null both functions return null.
\<close>

datatype expr = Param string | ToInt expr | Split expr char

fun split_on :: "char \<Rightarrow> string \<Rightarrow> string list" where
  "split_on d [] = [[]]"
| "split_on d (c # cs) =
     (if c = d then [] # split_on d cs
      else (case split_on d cs of [] \<Rightarrow> [[c]] | p # ps \<Rightarrow> (c # p) # ps))"

text \<open>
  \<open>toInt\<close> of a string: an optional sign and decimal digits give the integer, anything
  else gives null. (Strings that Neo4j reads as floating-point numbers are outside the
  model; the API sends \<open>episode_id\<close> as an integer.)
\<close>

definition digit_val :: "char \<Rightarrow> nat option" where
  "digit_val c = (let n = (of_char c :: nat) in if 48 \<le> n \<and> n \<le> 57 then Some (n - 48) else None)"

fun parse_digits :: "nat \<Rightarrow> string \<Rightarrow> nat option" where
  "parse_digits acc [] = Some acc"
| "parse_digits acc (c # cs) =
     (case digit_val c of None \<Rightarrow> None | Some d \<Rightarrow> parse_digits (10 * acc + d) cs)"

definition parse_int :: "string \<Rightarrow> int option" where
  "parse_int s =
     (case s of
        [] \<Rightarrow> None
      | c # cs \<Rightarrow>
          if c = CHR ''-'' then (if cs = [] then None else map_option (\<lambda>n. - int n) (parse_digits 0 cs))
          else if c = CHR ''+'' then (if cs = [] then None else map_option int (parse_digits 0 cs))
          else map_option int (parse_digits 0 s))"

fun eval_expr :: "params \<Rightarrow> expr \<Rightarrow> error + val" where
  "eval_expr ps (Param k) = (case ps k of None \<Rightarrow> Inl (ParameterMissing k) | Some v \<Rightarrow> Inr v)"
| "eval_expr ps (ToInt e) =
     (case eval_expr ps e of
        Inl x \<Rightarrow> Inl x
      | Inr VNull \<Rightarrow> Inr VNull
      | Inr (VInt n) \<Rightarrow> Inr (VInt n)
      | Inr (VStr s) \<Rightarrow> Inr (case parse_int s of None \<Rightarrow> VNull | Some n \<Rightarrow> VInt n)
      | Inr (VList xs) \<Rightarrow> Inl (TypeError ''toInt''))"
| "eval_expr ps (Split e d) =
     (case eval_expr ps e of
        Inl x \<Rightarrow> Inl x
      | Inr VNull \<Rightarrow> Inr VNull
      | Inr (VStr s) \<Rightarrow> Inr (VList (split_on d s))
      | Inr (VInt n) \<Rightarrow> Inl (TypeError ''split'')
      | Inr (VList xs) \<Rightarrow> Inl (TypeError ''split''))"

fun params_of :: "expr \<Rightarrow> string list" where
  "params_of (Param k) = [k]"
| "params_of (ToInt e) = params_of e"
| "params_of (Split e d) = params_of e"

subsection \<open>The clauses\<close>

text \<open>
  \<open>MERGE (x:l {k: v})\<close> for one row: null cannot be merged on (the database raises);
  otherwise every node with label \<open>l\<close> and property \<open>k = v\<close> is a match and gives a
  row; when there is none, one node is created, with the label \<open>Placeholder\<close> added
  when the clause has \<open>ON CREATE SET x:Placeholder\<close>.
\<close>

definition matches :: "string \<Rightarrow> string \<Rightarrow> val \<Rightarrow> node \<Rightarrow> bool" where
  "matches l k v n = (has_label l n \<and> prop_of k n = v)"

definition find_nodes :: "string \<Rightarrow> string \<Rightarrow> val \<Rightarrow> graph \<Rightarrow> nat list" where
  "find_nodes l k v g = filter (\<lambda>i. matches l k v (nodes g ! i)) [0..<length (nodes g)]"

definition fresh_node :: "string \<Rightarrow> string \<Rightarrow> val \<Rightarrow> bool \<Rightarrow> node" where
  "fresh_node l k v ph = \<lparr>labels = l # (if ph then [''Placeholder''] else []), props = [(k, v)]\<rparr>"

definition MERGE1 :: "string \<Rightarrow> string \<Rightarrow> bool \<Rightarrow> val \<Rightarrow> graph \<Rightarrow> error + (nat list \<times> graph)" where
  "MERGE1 l k ph v g =
     (if v = VNull then Inl (MergeNullProperty k)
      else if find_nodes l k v g = [] then
        Inr ([length (nodes g)], add_node (fresh_node l k v ph) g)
      else Inr (find_nodes l k v g, g))"

text \<open>
  The clause over all its input rows \<open>(p, v)\<close>, in order: a node created for one row is
  matched by the later rows.
\<close>

fun MERGE :: "string \<Rightarrow> string \<Rightarrow> bool \<Rightarrow> (nat \<times> val) list \<Rightarrow> graph
    \<Rightarrow> error + ((nat \<times> nat) list \<times> graph)" where
  "MERGE l k ph [] g = Inr ([], g)"
| "MERGE l k ph ((p, v) # rows) g =
     (case MERGE1 l k ph v g of
        Inl e \<Rightarrow> Inl e
      | Inr (ms, g1) \<Rightarrow>
          (case MERGE l k ph rows g1 of
             Inl e \<Rightarrow> Inl e
           | Inr (out, g2) \<Rightarrow> Inr (map (Pair p) ms @ out, g2)))"

text \<open>\<open>CREATE UNIQUE (a)-[:t]->(b)\<close> with both ends bound: create the relationship unless it exists.\<close>

definition CREATE_UNIQUE1 :: "string \<Rightarrow> nat \<Rightarrow> nat \<Rightarrow> graph \<Rightarrow> graph" where
  "CREATE_UNIQUE1 t a b g = (if (a, t, b) \<in> set (rels g) then g else g\<lparr>rels := rels g @ [(a, t, b)]\<rparr>)"

definition CREATE_UNIQUE :: "string \<Rightarrow> (nat \<times> nat) list \<Rightarrow> graph \<Rightarrow> graph" where
  "CREATE_UNIQUE t es g = fold (\<lambda>(a, b). CREATE_UNIQUE1 t a b) es g"

text \<open>\<open>SET p.k1 = v1, ...\<close> and \<open>REMOVE p:l\<close>, for every row.\<close>

definition set_props :: "(string \<times> val) list \<Rightarrow> node \<Rightarrow> node" where
  "set_props kvs n = fold (\<lambda>(k, v). set_prop k v) kvs n"

definition SET :: "nat list \<Rightarrow> (string \<times> val) list \<Rightarrow> graph \<Rightarrow> graph" where
  "SET rows kvs g = fold (\<lambda>i. update_node i (set_props kvs)) rows g"

definition REMOVE :: "nat list \<Rightarrow> string \<Rightarrow> graph \<Rightarrow> graph" where
  "REMOVE rows l g = fold (\<lambda>i. update_node i (remove_label l)) rows g"

text \<open>
  \<open>UNWIND e AS x\<close>: a list gives one row per element, null gives no row at all, any
  other value one row. \<open>WITH DISTINCT p\<close> keeps the first of equal rows.
\<close>

fun unwind :: "val \<Rightarrow> val list" where
  "unwind VNull = []"
| "unwind (VList xs) = map VStr xs"
| "unwind v = [v]"

definition UNWIND :: "val list \<Rightarrow> nat list \<Rightarrow> (nat \<times> val) list" where
  "UNWIND vs rows = concat (map (\<lambda>p. map (Pair p) vs) rows)"

definition WITH :: "bool \<Rightarrow> nat list \<Rightarrow> nat list" where
  "WITH dist rows = (if dist then rev (remdups (rev rows)) else rows)"

subsection \<open>Queries as values\<close>

text \<open>
  Every query of the notebook has the same build. It starts with
  \<open>MERGE (p:anchor {url: {url}}) SET ... [REMOVE p:Placeholder]\<close>; then come blocks
  \<open>[UNWIND e AS x] MERGE (t:tlabel {tkey: x}) [ON CREATE SET t:Placeholder]
  CREATE UNIQUE (p)-[:rtype]-(t)\<close>, separated by \<open>WITH p\<close> or \<open>WITH DISTINCT p\<close>.
  A block without \<open>UNWIND\<close> merges on the value of the expression itself (\<open>Single\<close>).
  \<open>Outgoing\<close> is \<open>(p)-[:rtype]->(t)\<close>, \<open>Incoming\<close> is \<open>(t)-[:rtype]->(p)\<close>.
\<close>

datatype source = Single expr | Unwind expr

datatype dir = Outgoing | Incoming

datatype link =
  Link (src: source) (tlabel: string) (tkey: string) (stub: bool) (rtype: string) (rdir: dir)
    (distinct_after: bool)

datatype query =
  Query (anchor: string) (sets: "(string \<times> expr) list") (hydrate: bool) (links: "link list")

fun source_expr :: "source \<Rightarrow> expr" where
  "source_expr (Single e) = e"
| "source_expr (Unwind e) = e"

fun source_vals :: "params \<Rightarrow> source \<Rightarrow> error + val list" where
  "source_vals ps (Single e) = (case eval_expr ps e of Inl x \<Rightarrow> Inl x | Inr v \<Rightarrow> Inr [v])"
| "source_vals ps (Unwind e) = (case eval_expr ps e of Inl x \<Rightarrow> Inl x | Inr v \<Rightarrow> Inr (unwind v))"

fun orient :: "dir \<Rightarrow> nat \<times> nat \<Rightarrow> nat \<times> nat" where
  "orient Outgoing (p, t) = (p, t)"
| "orient Incoming (p, t) = (t, p)"

text \<open>
  One block, on the rows \<open>rows\<close> of the anchor variable. With no row left nothing is
  evaluated. The result is the rows handed to the next block and the new store.
\<close>

definition run_link :: "params \<Rightarrow> link \<Rightarrow> nat list \<Rightarrow> graph \<Rightarrow> error + (nat list \<times> graph)" where
  "run_link ps L rows g =
     (if rows = [] then Inr ([], g)
      else
        (case source_vals ps (src L) of
           Inl e \<Rightarrow> Inl e
         | Inr vs \<Rightarrow>
             (case MERGE (tlabel L) (tkey L) (stub L) (UNWIND vs rows) g of
                Inl e \<Rightarrow> Inl e
              | Inr (out, g1) \<Rightarrow>
                  Inr (WITH (distinct_after L) (map fst out),
                       CREATE_UNIQUE (rtype L) (map (orient (rdir L)) out) g1))))"

fun run_links :: "params \<Rightarrow> link list \<Rightarrow> nat list \<Rightarrow> graph \<Rightarrow> error + graph" where
  "run_links ps [] rows g = Inr g"
| "run_links ps (L # Ls) rows g =
     (case run_link ps L rows g of
        Inl e \<Rightarrow> Inl e
      | Inr (rows', g') \<Rightarrow> run_links ps Ls rows' g')"

fun eval_sets :: "params \<Rightarrow> (string \<times> expr) list \<Rightarrow> error + (string \<times> val) list" where
  "eval_sets ps [] = Inr []"
| "eval_sets ps ((k, e) # kes) =
     (case eval_expr ps e of
        Inl x \<Rightarrow> Inl x
      | Inr v \<Rightarrow> (case eval_sets ps kes of Inl x \<Rightarrow> Inl x | Inr kvs \<Rightarrow> Inr ((k, v) # kvs)))"

text \<open>
  The database checks that every parameter the query text names was passed before it
  runs the query; parameters the text does not name are ignored.
\<close>

definition query_params :: "query \<Rightarrow> string list" where
  "query_params q =
     ''url'' # concat (map (\<lambda>(k, e). params_of e) (sets q))
       @ concat (map (\<lambda>L. params_of (source_expr (src L))) (links q))"

definition missing_params :: "query \<Rightarrow> params \<Rightarrow> string list" where
  "missing_params q ps = filter (\<lambda>k. ps k = None) (query_params q)"

text \<open>
  \<open>graph.run(q, params)\<close>: one transaction. \<open>Inl e\<close> is the exception \<open>e\<close>, and then
  nothing was written; \<open>Inr g'\<close> is the store after the commit.
\<close>

definition graph_run :: "query \<Rightarrow> params \<Rightarrow> graph \<Rightarrow> error + graph" where
  "graph_run q ps g =
     (case missing_params q ps of
        k # ks \<Rightarrow> Inl (ParameterMissing k)
      | [] \<Rightarrow>
          (case eval_expr ps (Param ''url'') of
             Inl e \<Rightarrow> Inl e
           | Inr u \<Rightarrow>
               (case MERGE1 (anchor q) ''url'' False u g of
                  Inl e \<Rightarrow> Inl e
                | Inr (rows, g1) \<Rightarrow>
                    (case eval_sets ps (sets q) of
                       Inl e \<Rightarrow> Inl e
                     | Inr kvs \<Rightarrow>
                         run_links ps (links q) rows
                           ((if hydrate q then REMOVE rows ''Placeholder'' else id)
                              (SET rows kvs g1))))))"

text \<open>The store a caller finds after the call, whether it raised or not.\<close>

definition store_after :: "query \<Rightarrow> params \<Rightarrow> graph \<Rightarrow> graph" where
  "store_after q ps g = (case graph_run q ps g of Inl e \<Rightarrow> g | Inr g' \<Rightarrow> g')"

subsection \<open>The six queries\<close>

definition copy :: "string list \<Rightarrow> (string \<times> expr) list" where
  "copy ks = map (\<lambda>k. (k, Param k)) ks"

definition CREATE_PERSON_QUERY :: query where
  "CREATE_PERSON_QUERY =
     Query ''Person''
       (copy [''birth_year'', ''created'', ''edited'', ''eye_color'', ''gender'',
              ''hair_color'', ''height'', ''mass'', ''name'', ''skin_color''])
       True
       [Link (Single (Param ''homeworld'')) ''Planet'' ''url'' True ''IS_FROM'' Outgoing False,
        Link (Unwind (Param ''species'')) ''Species'' ''url'' True ''IS_SPECIES'' Outgoing True,
        Link (Unwind (Param ''starships'')) ''Starship'' ''url'' True ''PILOTS'' Outgoing True,
        Link (Unwind (Param ''vehicles'')) ''Vehicle'' ''url'' True ''PILOTS'' Outgoing False]"

definition CREATE_MOVIE_QUERY :: query where
  "CREATE_MOVIE_QUERY =
     Query ''Film''
       [(''created'', Param ''created''), (''edited'', Param ''edited''),
        (''episode_id'', ToInt (Param ''episode_id'')),
        (''opening_crawl'', Param ''opening_crawl''),
        (''release_date'', Param ''release_date''), (''title'', Param ''title'')]
       False
       [Link (Unwind (Split (Param ''director'') CHR '','')) ''Director'' ''name'' False
          ''DIRECTED_BY'' Outgoing True,
        Link (Unwind (Split (Param ''producer'') CHR '','')) ''Producer'' ''name'' False
          ''PRODUCED_BY'' Outgoing True,
        Link (Unwind (Param ''characters'')) ''Person'' ''url'' True ''APPEARS_IN'' Incoming True,
        Link (Unwind (Param ''planets'')) ''Planet'' ''url'' True ''TAKES_PLACE_ON'' Outgoing True,
        Link (Unwind (Param ''species'')) ''Species'' ''url'' True ''APPEARS_IN'' Incoming True,
        Link (Unwind (Param ''starships'')) ''Starship'' ''url'' True ''APPEARS_IN'' Incoming True,
        Link (Unwind (Param ''vehicles'')) ''Vehicle'' ''url'' True ''APPEARS_IN'' Incoming False]"

definition CREATE_PLANET_QUERY :: query where
  "CREATE_PLANET_QUERY =
     Query ''Planet''
       (copy [''created'', ''diameter'', ''edited'', ''gravity'', ''name'', ''orbital_period'',
              ''population'', ''rotation_period'', ''surface_water''])
       True
       [Link (Unwind (Split (Param ''climate'') CHR '','')) ''Climate'' ''type'' False
          ''HAS_CLIMATE'' Outgoing True,
        Link (Unwind (Split (Param ''terrain'') CHR '','')) ''Terrain'' ''type'' False
          ''HAS_TERRAIN'' Outgoing False]"

definition CREATE_SPECIES_QUERY :: query where
  "CREATE_SPECIES_QUERY =
     Query ''Species''
       (copy [''name'', ''language'', ''average_height'', ''average_lifespan'',
              ''classification'', ''created'', ''designation'', ''eye_colors'',
              ''hair_colors'', ''skin_colors''])
       True
       []"

definition CREATE_STARSHIP_QUERY :: query where
  "CREATE_STARSHIP_QUERY =
     Query ''Starship''
       (copy [''MGLT'', ''consumables'', ''cost_in_credits'', ''created'', ''crew'', ''edited'',
              ''hyperdrive_rating'', ''length'', ''max_atmosphering_speed'', ''model'', ''name'',
              ''passengers''])
       True
       [Link (Single (Param ''manufacturer'')) ''Manufacturer'' ''name'' False
          ''MANUFACTURED_BY'' Outgoing False,
        Link (Single (Param ''starship_class'')) ''StarshipClass'' ''type'' False
          ''IS_CLASS'' Outgoing False]"

definition CREATE_VEHICLE_QUERY :: query where
  "CREATE_VEHICLE_QUERY =
     Query ''Vehicle''
       (copy [''cargo_capacity'', ''consumables'', ''cost_in_credits'', ''created'', ''crew'',
              ''edited'', ''length'', ''max_atmosphering_speed'', ''model'', ''name'',
              ''passengers''])
       True
       [Link (Single (Param ''manufacturer'')) ''Manufacturer'' ''name'' False
          ''MANUFACTURED_BY'' Outgoing False,
        Link (Single (Param ''vehicle_class'')) ''VehicleClass'' ''type'' False
          ''IS_CLASS'' Outgoing False]"

definition swapi_queries :: "query list" where
  "swapi_queries =
     [CREATE_MOVIE_QUERY, CREATE_PERSON_QUERY, CREATE_PLANET_QUERY, CREATE_SPECIES_QUERY,
      CREATE_STARSHIP_QUERY, CREATE_VEHICLE_QUERY]"

subsection \<open>Selection, dispatch and the crawl loop\<close>

text \<open>
  \<open>FIND_NEW_ENTITY_QUERY\<close> orders the nodes labelled \<open>Placeholder\<close> by \<open>rand()\<close> and
  returns the first: any one of them. The random draw is the argument \<open>r\<close>. The result
  is \<open>None\<close> when there is no such node (\<open>result.forward()\<close> is false), else the
  node's \<open>url\<close> and the \<open>type\<close> the \<open>CASE\<close> expression computes from its labels
  (null, here \<open>None\<close>, when \<open>labels(p)[1]\<close> is out of range).
\<close>

definition placeholders :: "graph \<Rightarrow> nat list" where
  "placeholders g = filter (\<lambda>i. has_label ''Placeholder'' (nodes g ! i)) [0..<length (nodes g)]"

definition type_of :: "node \<Rightarrow> string option" where
  "type_of n =
     (case labels n of
        [] \<Rightarrow> None
      | l # ls \<Rightarrow> if l = ''Placeholder'' then (case ls of [] \<Rightarrow> None | l' # ls' \<Rightarrow> Some l') else Some l)"

definition FIND_NEW_ENTITY_QUERY :: "nat \<Rightarrow> graph \<Rightarrow> (val \<times> string option) option" where
  "FIND_NEW_ENTITY_QUERY r g =
     (case placeholders g of
        [] \<Rightarrow> None
      | i # is \<Rightarrow>
          (let p = nodes g ! ((i # is) ! (r mod length (i # is)))
           in Some (prop_of ''url'' p, type_of p)))"

definition getQueryForLabel :: "string option \<Rightarrow> error + query" where
  "getQueryForLabel label =
     (if label = Some ''Vehicle'' then Inr CREATE_VEHICLE_QUERY
      else if label = Some ''Species'' then Inr CREATE_SPECIES_QUERY
      else if label = Some ''Person'' then Inr CREATE_PERSON_QUERY
      else if label = Some ''Starship'' then Inr CREATE_STARSHIP_QUERY
      else if label = Some ''Planet'' then Inr CREATE_PLANET_QUERY
      else Inl (ValueError label))"

text \<open>
  \<open>requests.get(url).json()\<close>. The library sends a request only for a URL that, its
  leading blanks removed, begins with \<open>http://\<close> or \<open>https://\<close> (in any case of the
  letters); for every other string, a relative path such as \<open>people/1\<close> included, it
  raises before anything is sent, and so it does for a value that is not a string (it
  is turned into one by \<open>str\<close>, which has no such beginning). What happens to a URL
  that passes is the parameter \<open>api\<close>: the remote side together with the rest of the
  library, from the URL to the document or a failure.
\<close>

definition blank :: "char \<Rightarrow> bool" where
  "blank c = (let n = (of_char c :: nat) in (9 \<le> n \<and> n \<le> 13) \<or> (28 \<le> n \<and> n \<le> 32))"

definition lower :: "char \<Rightarrow> char" where
  "lower c = (let n = (of_char c :: nat) in if 65 \<le> n \<and> n \<le> 90 then char_of (n + 32) else c)"

definition http_url :: "string \<Rightarrow> bool" where
  "http_url s =
     (let t = map lower (take 8 (dropWhile blank s))
      in take 7 t = ''http://'' \<or> t = ''https://'')"

definition http_get :: "(string \<Rightarrow> error + params) \<Rightarrow> val \<Rightarrow> error + params" where
  "http_get api u =
     (case u of
        VStr s \<Rightarrow> if http_url s then api s else Inl (InvalidURL u)
      | _ \<Rightarrow> Inl (InvalidURL u))"

text \<open>
  How a loop of the notebook ends: it runs to its end (\<open>Done\<close>, with the store), or a
  call raises, which nothing catches (\<open>Crashed\<close>, with the exception and the store as
  the last commit left it).
\<close>

datatype outcome = Done graph | Crashed error graph


text \<open>
  The seed loop of the notebook: for the films 1 to 7, fetch the film and run
  \<open>CREATE_MOVIE_QUERY\<close> on it. The URLs are \<open>"http://swapi.co/api/films/" + str(i) + "/"\<close>
  for \<open>i\<close> in \<open>range(1, 8)\<close>. Nothing is caught here either.
\<close>

definition film_urls :: "string list" where
  "film_urls = map (\<lambda>d. ''http://swapi.co/api/films/'' @ [d] @ ''/'') ''1234567''"

fun seed :: "(string \<Rightarrow> error + params) \<Rightarrow> string list \<Rightarrow> graph \<Rightarrow> outcome" where
  "seed api [] g = Done g"
| "seed api (url # urls) g =
     (case http_get api (VStr url) of
        Inl e \<Rightarrow> Crashed e g
      | Inr params \<Rightarrow>
          (case graph_run CREATE_MOVIE_QUERY params g of
             Inl e \<Rightarrow> Crashed e g
           | Inr g' \<Rightarrow> seed api urls g'))"

text \<open>
  The crawl loop of the notebook: select a placeholder, fetch it, run the query of its
  type, select again; \<open>Done\<close> when the selection query returns no row. The loop need
  not end, so the model counts the cycles it may still run: \<open>None\<close> means that \<open>n\<close>
  cycles were not enough. The draws of \<open>rand()\<close> are the sequence \<open>rnd\<close>.
\<close>

fun crawl :: "(string \<Rightarrow> error + params) \<Rightarrow> (nat \<Rightarrow> nat) \<Rightarrow> nat \<Rightarrow> graph \<Rightarrow> outcome option" where
  "crawl api rnd n g =
     (case FIND_NEW_ENTITY_QUERY (rnd 0) g of
        None \<Rightarrow> Some (Done g)
      | Some (url, label) \<Rightarrow>
          (case n of
             0 \<Rightarrow> None
           | Suc m \<Rightarrow>
               (case http_get api url of
                  Inl e \<Rightarrow> Some (Crashed e g)
                | Inr params \<Rightarrow>
                    (case getQueryForLabel label of
                       Inl e \<Rightarrow> Some (Crashed e g)
                     | Inr q \<Rightarrow>
                         (case graph_run q params g of
                            Inl e \<Rightarrow> Some (Crashed e g)
                          | Inr g' \<Rightarrow> crawl api (\<lambda>i. rnd (Suc i)) m g')))))"

subsection \<open>Sequences of upserts, hydration\<close>

text \<open>
  Any sequence of calls \<open>graph.run(q, params)\<close>; a call that raises leaves the store
  as it was. An entity is hydrated when its node exists and does not carry the label
  \<open>Placeholder\<close>.
\<close>

definition upserts :: "(query \<times> params) list \<Rightarrow> graph \<Rightarrow> graph" where
  "upserts us g = fold (\<lambda>(q, ps). store_after q ps) us g"

definition hydrated :: "graph \<Rightarrow> nat \<Rightarrow> bool" where
  "hydrated g i = (i < length (nodes g) \<and> \<not> has_label ''Placeholder'' (nodes g ! i))"

text \<open>The nodes a transaction created, and the relationships of one type.\<close>

definition created :: "graph \<Rightarrow> graph \<Rightarrow> node list" where
  "created g g' = drop (length (nodes g)) (nodes g')"

definition rels_of_type :: "string \<Rightarrow> graph \<Rightarrow> (nat \<times> string \<times> nat) list" where
  "rels_of_type t g = filter (\<lambda>e. fst (snd e) = t) (rels g)"

subsection \<open>Tag entities\<close>

text \<open>
  The auxiliary kinds, and the property each is merged on: a name for directors,
  producers and manufacturers, a type for the others.
\<close>

definition tag_kinds :: "string list" where
  "tag_kinds = [''Director'', ''Producer'', ''Manufacturer'', ''Climate'', ''Terrain'',
                ''StarshipClass'', ''VehicleClass'']"

definition tag_key :: "string \<Rightarrow> string" where
  "tag_key t = (if t \<in> set [''Director'', ''Producer'', ''Manufacturer''] then ''name'' else ''type'')"

definition is_tag :: "node \<Rightarrow> bool" where
  "is_tag n = (\<exists>t \<in> set tag_kinds. has_label t n)"

definition tags_hydrated :: "graph \<Rightarrow> bool" where
  "tags_hydrated g = (\<forall>n \<in> set (nodes g). is_tag n \<longrightarrow> \<not> has_label ''Placeholder'' n)"

text \<open>The relationship of type \<open>t\<close> a block of direction \<open>d\<close> puts between anchor \<open>p\<close> and target \<open>m\<close>.\<close>

definition edge :: "dir \<Rightarrow> nat \<Rightarrow> string \<Rightarrow> nat \<Rightarrow> nat \<times> string \<times> nat" where
  "edge d p t m = (case orient d (p, m) of (a, b) \<Rightarrow> (a, t, b))"

subsection \<open>The remote source as a finite set of keys\<close>

text \<open>
  A key is a kind and a URL. The unhydrated nodes of the store are keys of \<open>K\<close>
  (\<open>frontier_ok\<close>): each has the type the selection query computes and a string
  \<open>url\<close>, and the pair is in \<open>K\<close>. The source serves \<open>K\<close> (\<open>source_ok\<close>): for every
  key the kind is one \<open>getQueryForLabel\<close> knows, the fetch (\<open>http_get\<close>, so the URL
  is one the library accepts) returns a document that the
  query accepts (\<open>doc_ok\<close>: every parameter present, the \<open>url\<close> field is the key's URL,
  no expression fails, nothing merged on is null), and the references the query stubs
  are keys of \<open>K\<close> again (\<open>refs_in\<close>). A key is done when it has a node and every node
  it has is hydrated.
\<close>

definition frontier_ok :: "(string \<times> string) list \<Rightarrow> graph \<Rightarrow> bool" where
  "frontier_ok K g =
     (\<forall>n \<in> set (nodes g). has_label ''Placeholder'' n \<longrightarrow>
        (\<exists>(l, u) \<in> set K. type_of n = Some l \<and> prop_of ''url'' n = VStr u))"

definition doc_ok :: "query \<Rightarrow> string \<Rightarrow> params \<Rightarrow> bool" where
  "doc_ok q u ps =
     (missing_params q ps = [] \<and> ps ''url'' = Some (VStr u) \<and>
      (case eval_sets ps (sets q) of Inl e \<Rightarrow> False | Inr kvs \<Rightarrow> True) \<and>
      (\<forall>L \<in> set (links q).
         case source_vals ps (src L) of Inl e \<Rightarrow> False | Inr vs \<Rightarrow> VNull \<notin> set vs))"

definition refs_in :: "(string \<times> string) list \<Rightarrow> query \<Rightarrow> params \<Rightarrow> bool" where
  "refs_in K q ps =
     (\<forall>L \<in> set (links q). stub L \<longrightarrow>
        (case source_vals ps (src L) of
           Inl e \<Rightarrow> False
         | Inr vs \<Rightarrow> \<forall>v \<in> set vs. (case v of VStr u \<Rightarrow> (tlabel L, u) \<in> set K | _ \<Rightarrow> False)))"

definition source_ok :: "(string \<Rightarrow> error + params) \<Rightarrow> (string \<times> string) list \<Rightarrow> bool" where
  "source_ok api K =
     (\<forall>(l, u) \<in> set K.
        case getQueryForLabel (Some l) of
          Inl e \<Rightarrow> False
        | Inr q \<Rightarrow>
            (case http_get api (VStr u) of
               Inl e \<Rightarrow> False
             | Inr ps \<Rightarrow> doc_ok q u ps \<and> refs_in K q ps))"

definition key_done :: "graph \<Rightarrow> string \<times> string \<Rightarrow> bool" where
  "key_done g k =
     (find_nodes (fst k) ''url'' (VStr (snd k)) g \<noteq> [] \<and>
      (\<forall>a \<in> set (find_nodes (fst k) ''url'' (VStr (snd k)) g). hydrated g a))"

subsection \<open>The entities a store can reach\<close>

text \<open>
  A key has a node when some node carries its kind and its URL. The references of a
  document (\<open>refs\<close>) are the keys its query merges stubs for: for every block with
  \<open>ON CREATE SET t:Placeholder\<close>, the block's kind with every string the block's
  expression yields. \<open>doc_refs\<close> are the references of the document the source serves
  for a key.
\<close>

definition has_node :: "graph \<Rightarrow> string \<times> string \<Rightarrow> bool" where
  "has_node g k = (find_nodes (fst k) ''url'' (VStr (snd k)) g \<noteq> [])"

definition refs :: "query \<Rightarrow> params \<Rightarrow> (string \<times> string) list" where
  "refs q ps =
     concat (map (\<lambda>L. case source_vals ps (src L) of
                         Inl e \<Rightarrow> []
                       | Inr vs \<Rightarrow> concat (map (\<lambda>v. case v of VStr u \<Rightarrow> [(tlabel L, u)] | _ \<Rightarrow> []) vs))
               (filter stub (links q)))"

definition doc_refs :: "(string \<Rightarrow> error + params) \<Rightarrow> string \<times> string \<Rightarrow> (string \<times> string) list" where
  "doc_refs api k =
     (case getQueryForLabel (Some (fst k)) of
        Inl e \<Rightarrow> []
      | Inr q \<Rightarrow> (case http_get api (VStr (snd k)) of Inl e \<Rightarrow> [] | Inr ps \<Rightarrow> refs q ps))"

text \<open>
  The keys reachable from a store: the keys of \<open>K\<close> that have a node in it, and every
  key that the document of a reachable key refers to.
\<close>

inductive reachable ::
  "(string \<Rightarrow> error + params) \<Rightarrow> (string \<times> string) list \<Rightarrow> graph \<Rightarrow> string \<times> string \<Rightarrow> bool"
  for api K g where
  start: "k \<in> set K \<Longrightarrow> has_node g k \<Longrightarrow> reachable api K g k"
| step: "reachable api K g k \<Longrightarrow> k' \<in> set (doc_refs api k) \<Longrightarrow> reachable api K g k'"

code_pred reachable .

text \<open>
  Three conditions under which the crawl reaches all of them. In a document, a list
  that is empty or null is followed by empty or null lists only (\<open>lists_ok\<close>, for the
  blocks of the query in their order; \<open>source_lists_ok\<close> for every document the source
  serves): \<open>UNWIND\<close> of such a list leaves no row for the blocks after it. Every node
  has at most one label besides \<open>Placeholder\<close> (\<open>one_kind\<close>), which holds of every
  node the queries create. And for a key that the store holds hydrated already, which
  the loop will therefore not fetch, the references of its document have nodes
  (\<open>linked\<close>).
\<close>

definition lists_ok :: "query \<Rightarrow> params \<Rightarrow> bool" where
  "lists_ok q ps =
     (\<forall>j < length (links q). \<forall>i < j.
        source_vals ps (src (links q ! i)) = Inr [] \<longrightarrow> source_vals ps (src (links q ! j)) = Inr [])"

definition source_lists_ok :: "(string \<Rightarrow> error + params) \<Rightarrow> (string \<times> string) list \<Rightarrow> bool" where
  "source_lists_ok api K =
     (\<forall>k \<in> set K.
        case getQueryForLabel (Some (fst k)) of
          Inl e \<Rightarrow> True
        | Inr q \<Rightarrow> (case http_get api (VStr (snd k)) of Inl e \<Rightarrow> True | Inr ps \<Rightarrow> lists_ok q ps))"

definition one_kind :: "graph \<Rightarrow> bool" where
  "one_kind g =
     (\<forall>n \<in> set (nodes g). \<forall>l \<in> set (labels n). \<forall>l' \<in> set (labels n).
        l \<noteq> ''Placeholder'' \<longrightarrow> l' \<noteq> ''Placeholder'' \<longrightarrow> l = l')"

definition linked :: "(string \<Rightarrow> error + params) \<Rightarrow> (string \<times> string) list \<Rightarrow> graph \<Rightarrow> bool" where
  "linked api K g =
     (\<forall>k \<in> set K. key_done g k \<longrightarrow> (\<forall>k' \<in> set (doc_refs api k). has_node g k'))"

subsection \<open>Joining the pieces of a split\<close>

text \<open>The pieces with the delimiter between them, as \<open>d.join(xs)\<close> of Python.\<close>

fun join_on :: "char \<Rightarrow> string list \<Rightarrow> string" where
  "join_on d [] = []"
| "join_on d [x] = x"
| "join_on d (x # y # ys) = x @ d # join_on d (y # ys)"

subsection \<open>Auxiliary notions for the proofs\<close>

text \<open>A node as the block \<open>L\<close> creates it for the document \<open>ps\<close>.\<close>

definition link_node :: "params \<Rightarrow> link \<Rightarrow> node \<Rightarrow> bool" where
  "link_node ps L n =
     (\<exists>vs v. source_vals ps (src L) = Inr vs \<and> v \<in> set vs \<and> v \<noteq> VNull \<and>
        n = fresh_node (tlabel L) (tkey L) v (stub L))"

text \<open>The property \<open>k\<close> of a node already is what \<open>SET n.k = v\<close> would make it.\<close>

definition settled :: "string \<Rightarrow> val \<Rightarrow> node \<Rightarrow> bool" where
  "settled k v n = (if v = VNull then k \<notin> fst ` set (props n) else map_of (props n) k = Some v)"

text \<open>
  What the six queries have in common and idempotence rests on: \<open>SET\<close> never writes
  the key \<open>url\<close> and writes no property twice, and the labels the query merges on
  are pairwise different and none is \<open>Placeholder\<close>.
\<close>

definition wf_query :: "query \<Rightarrow> bool" where
  "wf_query q =
     (''url'' \<notin> set (map fst (sets q)) \<and> distinct (map fst (sets q)) \<and>
      distinct (anchor q # map tlabel (links q)) \<and>
      ''Placeholder'' \<notin> set (anchor q # map tlabel (links q)))"

subsection \<open>Sample documents\<close>

text \<open>The document the notebook prints for \<open>people/1\<close>.\<close>

definition luke :: params where
  "luke = map_of
     [(''name'', VStr ''Luke Skywalker''), (''height'', VStr ''172''), (''mass'', VStr ''77''),
      (''hair_color'', VStr ''blond''), (''skin_color'', VStr ''fair''),
      (''eye_color'', VStr ''blue''), (''birth_year'', VStr ''19BBY''),
      (''gender'', VStr ''male''),
      (''homeworld'', VStr ''https://swapi.co/api/planets/1/''),
      (''films'', VList [''https://swapi.co/api/films/2/'', ''https://swapi.co/api/films/6/'',
         ''https://swapi.co/api/films/3/'', ''https://swapi.co/api/films/1/'',
         ''https://swapi.co/api/films/7/'']),
      (''species'', VList [''https://swapi.co/api/species/1/'']),
      (''vehicles'', VList [''https://swapi.co/api/vehicles/14/'',
         ''https://swapi.co/api/vehicles/30/'']),
      (''starships'', VList [''https://swapi.co/api/starships/12/'',
         ''https://swapi.co/api/starships/22/'']),
      (''created'', VStr ''2014-12-09T13:50:51.644000Z''),
      (''edited'', VStr ''2014-12-20T21:17:56.891000Z''),
      (''url'', VStr ''https://swapi.co/api/people/1/'')]"

text \<open>The store after that document was upserted into the empty store.\<close>

definition luke_graph :: graph where
  "luke_graph =
     \<lparr>nodes =
        [\<lparr>labels = [''Person''],
            props =
              [(''url'', VStr ''https://swapi.co/api/people/1/''),
               (''birth_year'', VStr ''19BBY''),
               (''created'', VStr ''2014-12-09T13:50:51.644000Z''),
               (''edited'', VStr ''2014-12-20T21:17:56.891000Z''),
               (''eye_color'', VStr ''blue''), (''gender'', VStr ''male''),
               (''hair_color'', VStr ''blond''), (''height'', VStr ''172''),
               (''mass'', VStr ''77''), (''name'', VStr ''Luke Skywalker''),
               (''skin_color'', VStr ''fair'')]\<rparr>,
         \<lparr>labels = [''Planet'', ''Placeholder''],
            props = [(''url'', VStr ''https://swapi.co/api/planets/1/'')]\<rparr>,
         \<lparr>labels = [''Species'', ''Placeholder''],
            props = [(''url'', VStr ''https://swapi.co/api/species/1/'')]\<rparr>,
         \<lparr>labels = [''Starship'', ''Placeholder''],
            props = [(''url'', VStr ''https://swapi.co/api/starships/12/'')]\<rparr>,
         \<lparr>labels = [''Starship'', ''Placeholder''],
            props = [(''url'', VStr ''https://swapi.co/api/starships/22/'')]\<rparr>,
         \<lparr>labels = [''Vehicle'', ''Placeholder''],
            props = [(''url'', VStr ''https://swapi.co/api/vehicles/14/'')]\<rparr>,
         \<lparr>labels = [''Vehicle'', ''Placeholder''],
            props = [(''url'', VStr ''https://swapi.co/api/vehicles/30/'')]\<rparr>],
      rels =
        [(0, ''IS_FROM'', 1), (0, ''IS_SPECIES'', 2), (0, ''PILOTS'', 3),
         (0, ''PILOTS'', 4), (0, ''PILOTS'', 5), (0, ''PILOTS'', 6)]\<rparr>"

text \<open>
  A film document in the format of the notebook's sample for \<open>films/1\<close>, with the
  director field of the scenario and short lists.
\<close>

definition film :: params where
  "film = map_of
     [(''title'', VStr ''A New Hope''), (''episode_id'', VInt 4),
      (''opening_crawl'', VStr ''It is a period of civil war.''),
      (''director'', VStr ''George Lucas, Rick Marshall''),
      (''producer'', VStr ''Gary Kurtz, Rick McCallum''),
      (''release_date'', VStr ''1977-05-25''),
      (''characters'', VList [''https://swapi.co/api/people/1/'']),
      (''planets'', VList [''https://swapi.co/api/planets/1/'']),
      (''starships'', VList [''https://swapi.co/api/starships/12/'']),
      (''vehicles'', VList [''https://swapi.co/api/vehicles/4/'']),
      (''species'', VList [''https://swapi.co/api/species/1/'']),
      (''created'', VStr ''2014-12-10T14:23:31.880000Z''),
      (''edited'', VStr ''2015-04-11T09:46:52.774897Z''),
      (''url'', VStr ''https://swapi.co/api/films/1/'')]"

text \<open>The store after \<open>film\<close> was upserted into the empty store.\<close>

definition film_graph :: graph where
  "film_graph =
     \<lparr>nodes =
        [\<lparr>labels = [''Film''],
            props =
              [(''url'', VStr ''https://swapi.co/api/films/1/''),
               (''created'', VStr ''2014-12-10T14:23:31.880000Z''),
               (''edited'', VStr ''2015-04-11T09:46:52.774897Z''),
               (''episode_id'', VInt 4),
               (''opening_crawl'', VStr ''It is a period of civil war.''),
               (''release_date'', VStr ''1977-05-25''),
               (''title'', VStr ''A New Hope'')]\<rparr>,
         \<lparr>labels = [''Director''], props = [(''name'', VStr ''George Lucas'')]\<rparr>,
         \<lparr>labels = [''Director''], props = [(''name'', VStr '' Rick Marshall'')]\<rparr>,
         \<lparr>labels = [''Producer''], props = [(''name'', VStr ''Gary Kurtz'')]\<rparr>,
         \<lparr>labels = [''Producer''], props = [(''name'', VStr '' Rick McCallum'')]\<rparr>,
         \<lparr>labels = [''Person'', ''Placeholder''],
            props = [(''url'', VStr ''https://swapi.co/api/people/1/'')]\<rparr>,
         \<lparr>labels = [''Planet'', ''Placeholder''],
            props = [(''url'', VStr ''https://swapi.co/api/planets/1/'')]\<rparr>,
         \<lparr>labels = [''Species'', ''Placeholder''],
            props = [(''url'', VStr ''https://swapi.co/api/species/1/'')]\<rparr>,
         \<lparr>labels = [''Starship'', ''Placeholder''],
            props = [(''url'', VStr ''https://swapi.co/api/starships/12/'')]\<rparr>,
         \<lparr>labels = [''Vehicle'', ''Placeholder''],
            props = [(''url'', VStr ''https://swapi.co/api/vehicles/4/'')]\<rparr>],
      rels =
        [(0, ''DIRECTED_BY'', 1), (0, ''DIRECTED_BY'', 2),
         (0, ''PRODUCED_BY'', 3), (0, ''PRODUCED_BY'', 4),
         (5, ''APPEARS_IN'', 0), (0, ''TAKES_PLACE_ON'', 6),
         (7, ''APPEARS_IN'', 0), (8, ''APPEARS_IN'', 0),
         (9, ''APPEARS_IN'', 0)]\<rparr>"

text \<open>
  The store after the document of \<open>people/1\<close> with an empty \<open>starships\<close> list (a
  person who pilots no starship but drives two vehicles) was upserted into the empty
  store: the Person, the Planet stub and the Species stub.
\<close>

definition luke_no_starships_graph :: graph where
  "luke_no_starships_graph =
     \<lparr>nodes = take 3 (nodes luke_graph),
      rels = [(0, ''IS_FROM'', 1), (0, ''IS_SPECIES'', 2)]\<rparr>"

text \<open>The store after \<open>film\<close> with the empty string as director was upserted into the empty store.\<close>

definition blank_director_graph :: graph where
  "blank_director_graph =
     \<lparr>nodes = take 1 (nodes film_graph)
        @ [\<lparr>labels = [''Director''], props = [(''name'', VStr '''')]\<rparr>]
        @ drop 3 (nodes film_graph),
      rels =
        [(0, ''DIRECTED_BY'', 1), (0, ''PRODUCED_BY'', 2), (0, ''PRODUCED_BY'', 3),
         (4, ''APPEARS_IN'', 0), (0, ''TAKES_PLACE_ON'', 5), (6, ''APPEARS_IN'', 0),
         (7, ''APPEARS_IN'', 0), (8, ''APPEARS_IN'', 0)]\<rparr>"

text \<open>
  Two remote sides: one where every request fails, one that answers every request with
  the API's "not found" document.
\<close>

definition api_down :: "string \<Rightarrow> error + params" where
  "api_down u = Inl RequestFailed"

definition api_not_found :: "string \<Rightarrow> error + params" where
  "api_not_found u = Inr (map_of [(''detail'', VStr ''Not found'')])"

text \<open>
  A source of two keys: a person whose homeworld is a planet, with short documents in
  the API's format; the store that holds the person as a placeholder; the same source
  with the person's homeworld null; and a source of three keys, where the person pilots
  no starship and drives one vehicle, which the source serves as well.
\<close>

definition tiny_person :: params where
  "tiny_person = map_of
     [(''url'', VStr ''https://swapi.co/api/people/1/''), (''name'', VStr ''Luke''),
      (''birth_year'', VStr ''19BBY''), (''created'', VStr ''2014''), (''edited'', VStr ''2014''),
      (''eye_color'', VStr ''blue''), (''gender'', VStr ''male''), (''hair_color'', VStr ''blond''),
      (''height'', VStr ''172''), (''mass'', VStr ''77''), (''skin_color'', VStr ''fair''),
      (''homeworld'', VStr ''https://swapi.co/api/planets/1/''), (''species'', VList []),
      (''starships'', VList []), (''vehicles'', VList [])]"

definition tiny_planet :: params where
  "tiny_planet = map_of
     [(''url'', VStr ''https://swapi.co/api/planets/1/''), (''name'', VStr ''Tatooine''),
      (''created'', VStr ''2014''), (''edited'', VStr ''2014''), (''diameter'', VStr ''10465''),
      (''gravity'', VStr ''1''), (''orbital_period'', VStr ''304''),
      (''population'', VStr ''200000''), (''rotation_period'', VStr ''23''),
      (''surface_water'', VStr ''1''), (''climate'', VStr ''arid''), (''terrain'', VStr ''desert'')]"

definition tiny_api :: "string \<Rightarrow> error + params" where
  "tiny_api u =
     (if u = ''https://swapi.co/api/people/1/'' then Inr tiny_person
      else if u = ''https://swapi.co/api/planets/1/'' then Inr tiny_planet
      else Inl RequestFailed)"

definition tiny_keys :: "(string \<times> string) list" where
  "tiny_keys =
     [(''Person'', ''https://swapi.co/api/people/1/''),
      (''Planet'', ''https://swapi.co/api/planets/1/'')]"

definition tiny_start :: graph where
  "tiny_start =
     \<lparr>nodes = [\<lparr>labels = [''Person'', ''Placeholder''],
                 props = [(''url'', VStr ''https://swapi.co/api/people/1/'')]\<rparr>],
      rels = []\<rparr>"

definition no_homeworld_api :: "string \<Rightarrow> error + params" where
  "no_homeworld_api u =
     (if u = ''https://swapi.co/api/people/1/'' then Inr (tiny_person(''homeworld'' \<mapsto> VNull))
      else Inl RequestFailed)"

definition tiny_vehicle :: params where
  "tiny_vehicle = map_of
     [(''url'', VStr ''https://swapi.co/api/vehicles/30/''), (''name'', VStr ''Imperial Speeder Bike''),
      (''model'', VStr ''74-Z speeder bike''), (''manufacturer'', VStr ''Aratech Repulsor Company''),
      (''vehicle_class'', VStr ''speeder''), (''cargo_capacity'', VStr ''4''),
      (''consumables'', VStr ''1 day''), (''cost_in_credits'', VStr ''8000''),
      (''created'', VStr ''2014''), (''edited'', VStr ''2014''), (''crew'', VStr ''1''),
      (''length'', VStr ''3''), (''max_atmosphering_speed'', VStr ''360''),
      (''passengers'', VStr ''1'')]"

definition driver_api :: "string \<Rightarrow> error + params" where
  "driver_api u =
     (if u = ''https://swapi.co/api/people/1/''
      then Inr (tiny_person(''vehicles'' \<mapsto> VList [''https://swapi.co/api/vehicles/30/'']))
      else if u = ''https://swapi.co/api/planets/1/'' then Inr tiny_planet
      else if u = ''https://swapi.co/api/vehicles/30/'' then Inr tiny_vehicle
      else Inl RequestFailed)"

definition driver_keys :: "(string \<times> string) list" where
  "driver_keys = tiny_keys @ [(''Vehicle'', ''https://swapi.co/api/vehicles/30/'')]"

text \<open>
  The store after the person and then the planet were upserted into \<open>tiny_start\<close>,
  the same for the person of \<open>tiny_api\<close> and for the person of \<open>driver_api\<close>.
\<close>

definition tiny_end :: graph where
  "tiny_end =
     \<lparr>nodes =
        [\<lparr>labels = [''Person''],
            props =
              [(''url'', VStr ''https://swapi.co/api/people/1/''), (''birth_year'', VStr ''19BBY''),
               (''created'', VStr ''2014''), (''edited'', VStr ''2014''),
               (''eye_color'', VStr ''blue''), (''gender'', VStr ''male''),
               (''hair_color'', VStr ''blond''), (''height'', VStr ''172''),
               (''mass'', VStr ''77''), (''name'', VStr ''Luke''), (''skin_color'', VStr ''fair'')]\<rparr>,
         \<lparr>labels = [''Planet''],
            props =
              [(''url'', VStr ''https://swapi.co/api/planets/1/''), (''created'', VStr ''2014''),
               (''diameter'', VStr ''10465''), (''edited'', VStr ''2014''),
               (''gravity'', VStr ''1''), (''name'', VStr ''Tatooine''),
               (''orbital_period'', VStr ''304''), (''population'', VStr ''200000''),
               (''rotation_period'', VStr ''23''), (''surface_water'', VStr ''1'')]\<rparr>,
         \<lparr>labels = [''Climate''], props = [(''type'', VStr ''arid'')]\<rparr>,
         \<lparr>labels = [''Terrain''], props = [(''type'', VStr ''desert'')]\<rparr>],
      rels = [(0, ''IS_FROM'', 1), (1, ''HAS_CLIMATE'', 2), (1, ''HAS_TERRAIN'', 3)]\<rparr>"

text \<open>The store between the two upserts: the person hydrated, the planet a stub.\<close>

definition tiny_mid :: graph where
  "tiny_mid =
     \<lparr>nodes = [nodes tiny_end ! 0,
               \<lparr>labels = [''Planet'', ''Placeholder''],
                  props = [(''url'', VStr ''https://swapi.co/api/planets/1/'')]\<rparr>],
      rels = [(0, ''IS_FROM'', 1)]\<rparr>"


section \<open>Lemmas about the clauses\<close>

lemma graph_eqI: "nodes g = nodes h \<Longrightarrow> rels g = rels h \<Longrightarrow> g = (h::graph)"
  by simp

lemma fold_update_length [simp]:
  "length (nodes (fold (\<lambda>i. update_node i f) rows g)) = length (nodes g)"
  by (induction rows arbitrary: g) (simp_all add: update_node_def)

lemma fold_update_rels [simp]:
  "rels (fold (\<lambda>i. update_node i f) rows g) = rels g"
  by (induction rows arbitrary: g) (simp_all add: update_node_def)

lemma fold_update_nth:
  assumes idem: "\<And>n. f (f n) = f n"
  shows "j < length (nodes g) \<Longrightarrow>
    nodes (fold (\<lambda>i. update_node i f) rows g) ! j =
      (if j \<in> set rows then f (nodes g ! j) else nodes g ! j)"
proof (induction rows arbitrary: g)
  case Nil
  then show ?case by simp
next
  case (Cons i rows)
  have len: "j < length (nodes (update_node i f g))"
    using Cons.prems by (simp add: update_node_def)
  have step: "nodes (update_node i f g) ! j = (if i = j then f (nodes g ! j) else nodes g ! j)"
    using Cons.prems by (simp add: update_node_def nth_list_update)
  show ?case
    using Cons.IH [OF len] step by (auto simp add: idem)
qed

lemma fold_update_inv:
  assumes "\<And>n. Q n \<Longrightarrow> Q (f n)"
  shows "j < length (nodes g) \<Longrightarrow> Q (nodes g ! j) \<Longrightarrow> Q (nodes (fold (\<lambda>i. update_node i f) rows g) ! j)"
proof (induction rows arbitrary: g)
  case Nil
  then show ?case by simp
next
  case (Cons i rows)
  have "Q (nodes (update_node i f g) ! j)"
    using Cons.prems assms by (cases "i = j") (simp_all add: update_node_def)
  then show ?case
    using Cons.IH [of "update_node i f g"] Cons.prems by (simp add: update_node_def)
qed

lemma fold_update_fixed:
  assumes "\<And>j. j \<in> set rows \<Longrightarrow> j < length (nodes g) \<Longrightarrow> f (nodes g ! j) = nodes g ! j"
  shows "fold (\<lambda>i. update_node i f) rows g = g"
  using assms
proof (induction rows)
  case Nil
  then show ?case by simp
next
  case (Cons i rows)
  have "update_node i f g = g"
  proof (cases "i < length (nodes g)")
    case True
    then show ?thesis using Cons.prems [of i] by (simp add: update_node_def)
  next
    case False
    then show ?thesis by (simp add: update_node_def list_update_beyond)
  qed
  then show ?case using Cons by simp
qed

subsection \<open>Finding nodes\<close>

lemma find_nodes_append:
  "nodes h = nodes g @ ns \<Longrightarrow> \<forall>n \<in> set ns. \<not> matches l k v n \<Longrightarrow>
   find_nodes l k v h = find_nodes l k v g"
proof (induction ns arbitrary: h rule: rev_induct)
  case Nil
  then show ?case by (simp add: find_nodes_def)
next
  case (snoc n ns)
  define h0 where "h0 = h\<lparr>nodes := nodes g @ ns\<rparr>"
  have h0: "find_nodes l k v h0 = find_nodes l k v g"
    using snoc.IH [of h0] snoc.prems by (simp add: h0_def)
  have "find_nodes l k v h = find_nodes l k v h0"
    using snoc.prems
    by (auto simp add: find_nodes_def h0_def nth_append intro!: filter_cong)
  with h0 show ?case by simp
qed

lemma find_nodes_add_node:
  "find_nodes l k v (add_node n g) =
     find_nodes l k v g @ (if matches l k v n then [length (nodes g)] else [])"
  by (auto simp add: find_nodes_def add_node_def nth_append intro!: filter_cong)

lemma find_nodes_bound: "i \<in> set (find_nodes l k v g) \<Longrightarrow> i < length (nodes g)"
  by (simp add: find_nodes_def)

lemma find_nodes_matches:
  "i \<in> set (find_nodes l k v g) \<longleftrightarrow> i < length (nodes g) \<and> matches l k v (nodes g ! i)"
  by (auto simp add: find_nodes_def)

lemma find_nodes_cong:
  "length (nodes h) = length (nodes g) \<Longrightarrow>
   (\<And>i. i < length (nodes g) \<Longrightarrow> matches l k v (nodes h ! i) = matches l k v (nodes g ! i)) \<Longrightarrow>
   find_nodes l k v h = find_nodes l k v g"
  by (auto simp add: find_nodes_def intro!: filter_cong)

lemma matches_fresh [simp]:
  "matches l k v (fresh_node l' k' v' ph) \<longleftrightarrow>
     (l = l' \<or> (ph \<and> l = ''Placeholder'')) \<and> (if k = k' then v' = v else v = VNull)"
  by (auto simp add: matches_def fresh_node_def has_label_def prop_of_def)

subsection \<open>MERGE\<close>

lemma MERGE1_find:
  "MERGE1 l k ph v g = Inr (ms, g1) \<Longrightarrow> find_nodes l k v g1 = ms \<and> ms \<noteq> [] \<and> v \<noteq> VNull"
  by (auto simp add: MERGE1_def find_nodes_add_node split: if_splits)

lemma MERGE1_nodes:
  "MERGE1 l k ph v g = Inr (ms, g1) \<Longrightarrow>
     rels g1 = rels g \<and>
     (nodes g1 = nodes g \<or> (find_nodes l k v g = [] \<and> nodes g1 = nodes g @ [fresh_node l k v ph]))"
  by (auto simp add: MERGE1_def add_node_def split: if_splits)

lemma MERGE1_other:
  "MERGE1 l k ph v' g = Inr (ms, g1) \<Longrightarrow> find_nodes l k v g \<noteq> [] \<Longrightarrow>
   find_nodes l k v g1 = find_nodes l k v g"
  by (auto simp add: MERGE1_def find_nodes_add_node split: if_splits)

lemma MERGE_stable:
  "MERGE l k ph rows g = Inr (out, g2) \<Longrightarrow> find_nodes l k v g \<noteq> [] \<Longrightarrow>
   find_nodes l k v g2 = find_nodes l k v g"
proof (induction rows arbitrary: g out)
  case Nil
  then show ?case by simp
next
  case (Cons row rows)
  obtain p v' where row: "row = (p, v')" by (cases row)
  from Cons.prems(1) row obtain ms g1 out' where
    m1: "MERGE1 l k ph v' g = Inr (ms, g1)" and m2: "MERGE l k ph rows g1 = Inr (out', g2)"
    by (auto split: sum.splits)
  have "find_nodes l k v g1 = find_nodes l k v g"
    using MERGE1_other [OF m1 Cons.prems(2)] .
  with Cons.IH [OF m2] Cons.prems(2) show ?case by simp
qed

text \<open>What MERGE adds: only nodes, each a fresh node of the clause.\<close>

lemma MERGE_nodes:
  "MERGE l k ph rows g = Inr (out, g2) \<Longrightarrow>
   rels g2 = rels g \<and>
   (\<exists>ns. nodes g2 = nodes g @ ns \<and> (\<forall>n \<in> set ns. \<exists>v \<in> snd ` set rows. v \<noteq> VNull \<and> n = fresh_node l k v ph))"
proof (induction rows arbitrary: g out)
  case Nil
  then show ?case by simp
next
  case (Cons row rows)
  obtain p v' where row: "row = (p, v')" by (cases row)
  from Cons.prems(1) row obtain ms g1 out' where
    m1: "MERGE1 l k ph v' g = Inr (ms, g1)" and m2: "MERGE l k ph rows g1 = Inr (out', g2)"
    by (auto split: sum.splits)
  from MERGE1_nodes [OF m1] MERGE1_find [OF m1]
  have r1: "rels g1 = rels g" and
    n1: "\<exists>ns. nodes g1 = nodes g @ ns \<and> (\<forall>n \<in> set ns. v' \<noteq> VNull \<and> n = fresh_node l k v' ph)"
    by auto
  from Cons.IH [OF m2] obtain ns2 where
    r2: "rels g2 = rels g1" and n2: "nodes g2 = nodes g1 @ ns2"
    and f2: "\<forall>n \<in> set ns2. \<exists>v \<in> snd ` set rows. v \<noteq> VNull \<and> n = fresh_node l k v ph"
    by blast
  from n1 obtain ns1 where n1': "nodes g1 = nodes g @ ns1"
    and f1: "\<forall>n \<in> set ns1. v' \<noteq> VNull \<and> n = fresh_node l k v' ph" by blast
  have "nodes g2 = nodes g @ (ns1 @ ns2)" using n1' n2 by simp
  moreover have "\<forall>n \<in> set (ns1 @ ns2). \<exists>v \<in> snd ` set (row # rows). v \<noteq> VNull \<and> n = fresh_node l k v ph"
    using f1 f2 row by auto
  ultimately have "\<exists>ns. nodes g2 = nodes g @ ns \<and>
      (\<forall>n \<in> set ns. \<exists>v \<in> snd ` set (row # rows). v \<noteq> VNull \<and> n = fresh_node l k v ph)"
    by blast
  then show ?case using r1 r2 by simp
qed

lemma MERGE_replay:
  "MERGE l k ph rows g = Inr (out, g2) \<Longrightarrow> nodes h = nodes g2 @ ns \<Longrightarrow>
   \<forall>n \<in> set ns. \<not> has_label l n \<Longrightarrow>
   MERGE l k ph rows h = Inr (out, h)"
proof (induction rows arbitrary: g out)
  case Nil
  then show ?case by simp
next
  case (Cons row rows)
  obtain p v where row: "row = (p, v)" by (cases row)
  from Cons.prems(1) row obtain ms g1 out' where
    m1: "MERGE1 l k ph v g = Inr (ms, g1)" and m2: "MERGE l k ph rows g1 = Inr (out', g2)"
    and out: "out = map (Pair p) ms @ out'"
    by (auto split: sum.splits)
  have f1: "find_nodes l k v g1 = ms" "ms \<noteq> []" "v \<noteq> VNull"
    using MERGE1_find [OF m1] by auto
  have f2: "find_nodes l k v g2 = ms"
    using MERGE_stable [OF m2, of v] f1 by simp
  have f3: "find_nodes l k v h = ms"
    using find_nodes_append [OF Cons.prems(2), of l k v] Cons.prems(3) f2
    by (simp add: matches_def)
  have "MERGE1 l k ph v h = Inr (ms, h)"
    using f3 f1 by (simp add: MERGE1_def)
  moreover have "MERGE l k ph rows h = Inr (out', h)"
    using Cons.IH [OF m2 Cons.prems(2) Cons.prems(3)] .
  ultimately show ?case using row out by simp
qed

subsection \<open>CREATE UNIQUE\<close>

lemma CREATE_UNIQUE_nodes [simp]: "nodes (CREATE_UNIQUE t es g) = nodes g"
  unfolding CREATE_UNIQUE_def
  by (induction es arbitrary: g) (auto simp add: CREATE_UNIQUE1_def)

lemma CREATE_UNIQUE_rels:
  "\<exists>extra. rels (CREATE_UNIQUE t es g) = rels g @ extra \<and>
     (\<forall>e \<in> set extra. \<exists>(a, b) \<in> set es. e = (a, t, b))"
  unfolding CREATE_UNIQUE_def
proof (induction es arbitrary: g)
  case Nil
  then show ?case by simp
next
  case (Cons e es)
  obtain a b where e: "e = (a, b)" by (cases e)
  obtain x1 where x1: "rels (CREATE_UNIQUE1 t a b g) = rels g @ x1"
    "\<forall>e \<in> set x1. e = (a, t, b)"
    by (cases "(a, t, b) \<in> set (rels g)") (auto simp add: CREATE_UNIQUE1_def)
  from Cons.IH [of "CREATE_UNIQUE1 t a b g"] obtain x2 where
    x2: "rels (fold (\<lambda>(a, b). CREATE_UNIQUE1 t a b) es (CREATE_UNIQUE1 t a b g)) =
          rels (CREATE_UNIQUE1 t a b g) @ x2"
        "\<forall>e \<in> set x2. \<exists>(a, b) \<in> set es. e = (a, t, b)"
    by blast
  have "rels (fold (\<lambda>(a, b). CREATE_UNIQUE1 t a b) (e # es) g) = rels g @ (x1 @ x2)"
    using x1 x2 e by simp
  moreover have "\<forall>y \<in> set (x1 @ x2). \<exists>(a, b) \<in> set (e # es). y = (a, t, b)"
    using x1 x2 e by auto
  ultimately show ?case by blast
qed

lemma CREATE_UNIQUE_mono: "set (rels g) \<subseteq> set (rels (CREATE_UNIQUE t es g))"
  using CREATE_UNIQUE_rels [of t es g] by auto

lemma CREATE_UNIQUE_present:
  "(a, b) \<in> set es \<Longrightarrow> (a, t, b) \<in> set (rels (CREATE_UNIQUE t es g))"
proof (induction es arbitrary: g)
  case Nil
  then show ?case by simp
next
  case (Cons e es)
  obtain a' b' where e: "e = (a', b')" by (cases e)
  have unf: "CREATE_UNIQUE t (e # es) g = CREATE_UNIQUE t es (CREATE_UNIQUE1 t a' b' g)"
    by (simp add: CREATE_UNIQUE_def e)
  show ?case
  proof (cases "(a, b) = (a', b')")
    case True
    have "(a, t, b) \<in> set (rels (CREATE_UNIQUE1 t a' b' g))"
      using True by (simp add: CREATE_UNIQUE1_def)
    then show ?thesis
      using CREATE_UNIQUE_mono [of "CREATE_UNIQUE1 t a' b' g" t es] unf by auto
  next
    case False
    then have "(a, b) \<in> set es" using Cons.prems e by auto
    then show ?thesis using Cons.IH unf by simp
  qed
qed

lemma CREATE_UNIQUE_fixed:
  "\<forall>(a, b) \<in> set es. (a, t, b) \<in> set (rels g) \<Longrightarrow> CREATE_UNIQUE t es g = g"
  unfolding CREATE_UNIQUE_def
  by (induction es) (auto simp add: CREATE_UNIQUE1_def)

subsection \<open>One block, and a list of blocks\<close>

lemma has_label_fresh [simp]:
  "has_label l (fresh_node l' k v ph) \<longleftrightarrow> l = l' \<or> (ph \<and> l = ''Placeholder'')"
  by (auto simp add: has_label_def fresh_node_def)

lemma run_link_grows:
  assumes "run_link ps L rows g = Inr (rows', g')"
  shows "\<exists>ns extra. nodes g' = nodes g @ ns \<and> (\<forall>n \<in> set ns. link_node ps L n) \<and>
           rels g' = rels g @ extra \<and> (\<forall>e \<in> set extra. fst (snd e) = rtype L)"
proof (cases "rows = []")
  case True
  then show ?thesis using assms by (simp add: run_link_def)
next
  case False
  from assms False obtain vs out g1 where
    vs: "source_vals ps (src L) = Inr vs"
    and m: "MERGE (tlabel L) (tkey L) (stub L) (UNWIND vs rows) g = Inr (out, g1)"
    and g': "g' = CREATE_UNIQUE (rtype L) (map (orient (rdir L)) out) g1"
    by (auto simp add: run_link_def split: sum.splits)
  have sub: "snd ` set (UNWIND vs rows) \<subseteq> set vs"
    by (auto simp add: UNWIND_def)
  from MERGE_nodes [OF m] obtain ns where
    ns: "rels g1 = rels g" "nodes g1 = nodes g @ ns"
    and fr: "\<forall>n \<in> set ns. \<exists>v \<in> snd ` set (UNWIND vs rows).
               v \<noteq> VNull \<and> n = fresh_node (tlabel L) (tkey L) v (stub L)"
    by blast
  have ln: "\<forall>n \<in> set ns. link_node ps L n"
  proof
    fix n assume "n \<in> set ns"
    then obtain v where v: "v \<in> snd ` set (UNWIND vs rows)" "v \<noteq> VNull"
      "n = fresh_node (tlabel L) (tkey L) v (stub L)"
      using fr by blast
    have "v \<in> set vs" using v(1) sub by blast
    then show "link_node ps L n"
      unfolding link_node_def using vs v(2,3) by blast
  qed
  from CREATE_UNIQUE_rels [of "rtype L" "map (orient (rdir L)) out" g1] obtain extra where
    ex: "rels g' = rels g1 @ extra" "\<forall>e \<in> set extra. fst (snd e) = rtype L"
    unfolding g' by fastforce
  show ?thesis using ns ln ex g' by simp
qed

lemma run_link_replay:
  assumes run: "run_link ps L rows g = Inr (rows', g')"
    and nodes: "nodes h = nodes g' @ ns" "\<forall>n \<in> set ns. \<not> has_label (tlabel L) n"
    and rels: "set (rels g') \<subseteq> set (rels h)"
  shows "run_link ps L rows h = Inr (rows', h)"
proof (cases "rows = []")
  case True
  then show ?thesis using run by (simp add: run_link_def)
next
  case False
  from run False obtain vs out g1 where
    vs: "source_vals ps (src L) = Inr vs"
    and m: "MERGE (tlabel L) (tkey L) (stub L) (UNWIND vs rows) g = Inr (out, g1)"
    and g': "g' = CREATE_UNIQUE (rtype L) (map (orient (rdir L)) out) g1"
    and rows': "rows' = WITH (distinct_after L) (map fst out)"
    by (auto simp add: run_link_def split: sum.splits)
  have "nodes h = nodes g1 @ ns" using nodes(1) g' by simp
  from MERGE_replay [OF m this nodes(2)]
  have m': "MERGE (tlabel L) (tkey L) (stub L) (UNWIND vs rows) h = Inr (out, h)" .
  have "\<forall>(a, b) \<in> set (map (orient (rdir L)) out). (a, rtype L, b) \<in> set (rels h)"
  proof (clarify)
    fix a b assume "(a, b) \<in> set (map (orient (rdir L)) out)"
    then have "(a, rtype L, b) \<in> set (rels g')"
      unfolding g' by (rule CREATE_UNIQUE_present)
    then show "(a, rtype L, b) \<in> set (rels h)" using rels by blast
  qed
  then have "CREATE_UNIQUE (rtype L) (map (orient (rdir L)) out) h = h"
    by (rule CREATE_UNIQUE_fixed)
  then show ?thesis using False vs m' rows' by (simp add: run_link_def)
qed

lemma run_links_grows:
  "run_links ps Ls rows g = Inr g' \<Longrightarrow>
   \<exists>ns extra. nodes g' = nodes g @ ns \<and> (\<forall>n \<in> set ns. \<exists>L \<in> set Ls. link_node ps L n) \<and>
      rels g' = rels g @ extra \<and> (\<forall>e \<in> set extra. \<exists>L \<in> set Ls. fst (snd e) = rtype L)"
proof (induction Ls arbitrary: rows g)
  case Nil
  then show ?case by simp
next
  case (Cons L Ls)
  from Cons.prems obtain rows1 g1 where
    l1: "run_link ps L rows g = Inr (rows1, g1)" and l2: "run_links ps Ls rows1 g1 = Inr g'"
    by (auto split: sum.splits)
  from run_link_grows [OF l1] obtain ns1 x1 where
    a: "nodes g1 = nodes g @ ns1" "\<forall>n \<in> set ns1. link_node ps L n"
       "rels g1 = rels g @ x1" "\<forall>e \<in> set x1. fst (snd e) = rtype L"
    by blast
  from Cons.IH [OF l2] obtain ns2 x2 where
    b: "nodes g' = nodes g1 @ ns2" "\<forall>n \<in> set ns2. \<exists>L \<in> set Ls. link_node ps L n"
       "rels g' = rels g1 @ x2" "\<forall>e \<in> set x2. \<exists>L \<in> set Ls. fst (snd e) = rtype L"
    by blast
  have "nodes g' = nodes g @ (ns1 @ ns2)" "rels g' = rels g @ (x1 @ x2)"
    using a b by simp_all
  moreover have "\<forall>n \<in> set (ns1 @ ns2). \<exists>L' \<in> set (L # Ls). link_node ps L' n"
    using a b by auto
  moreover have "\<forall>e \<in> set (x1 @ x2). \<exists>L' \<in> set (L # Ls). fst (snd e) = rtype L'"
    using a b by auto
  ultimately show ?case by blast
qed

lemma run_links_replay:
  "distinct (map tlabel Ls) \<Longrightarrow> ''Placeholder'' \<notin> set (map tlabel Ls) \<Longrightarrow>
   run_links ps Ls rows g = Inr g' \<Longrightarrow> nodes h = nodes g' @ ns \<Longrightarrow>
   \<forall>n \<in> set ns. \<forall>L \<in> set Ls. \<not> has_label (tlabel L) n \<Longrightarrow>
   set (rels g') \<subseteq> set (rels h) \<Longrightarrow>
   run_links ps Ls rows h = Inr h"
proof (induction Ls arbitrary: rows g)
  case Nil
  then show ?case by simp
next
  case (Cons L Ls)
  from Cons.prems(3) obtain rows1 g1 where
    l1: "run_link ps L rows g = Inr (rows1, g1)" and l2: "run_links ps Ls rows1 g1 = Inr g'"
    by (auto split: sum.splits)
  from run_links_grows [OF l2] obtain ms extra where
    gr: "nodes g' = nodes g1 @ ms" "\<forall>n \<in> set ms. \<exists>L' \<in> set Ls. link_node ps L' n"
        "rels g' = rels g1 @ extra"
    by blast
  have no: "\<forall>n \<in> set ms. \<not> has_label (tlabel L) n"
  proof
    fix n assume "n \<in> set ms"
    then obtain L' where L': "L' \<in> set Ls" "link_node ps L' n" using gr(2) by blast
    have "tlabel L \<noteq> tlabel L'" "tlabel L \<noteq> ''Placeholder''"
      using Cons.prems(1,2) L'(1) by auto
    moreover from L'(2) obtain v where "n = fresh_node (tlabel L') (tkey L') v (stub L')"
      unfolding link_node_def by blast
    ultimately show "\<not> has_label (tlabel L) n" by simp
  qed
  have "run_link ps L rows h = Inr (rows1, h)"
  proof (rule run_link_replay [OF l1, of h "ms @ ns"])
    show "nodes h = nodes g1 @ ms @ ns" using Cons.prems(4) gr(1) by simp
    show "\<forall>n \<in> set (ms @ ns). \<not> has_label (tlabel L) n" using no Cons.prems(5) by auto
    show "set (rels g1) \<subseteq> set (rels h)" using gr(3) Cons.prems(6) by auto
  qed
  moreover have "run_links ps Ls rows1 h = Inr h"
    using Cons.IH [OF _ _ l2 Cons.prems(4)] Cons.prems(1,2,5,6) by simp
  ultimately show ?case by simp
qed

subsection \<open>SET twice\<close>

lemma set_prop_settles: "settled k v (set_prop k v n)"
  by (simp add: settled_def set_prop_def AList.update_conv' AList.delete_notin_dom)

lemma delete_keeps_absent: "k \<notin> fst ` set al \<Longrightarrow> k \<notin> fst ` set (AList.delete k' al)"
  using AList.dom_delete_subset [of k' al] by blast

lemma set_prop_keeps: "k' \<noteq> k \<Longrightarrow> settled k v n \<Longrightarrow> settled k v (set_prop k' v' n)"
  by (simp add: settled_def set_prop_def AList.update_conv' AList.delete_conv'
      AList.dom_update delete_keeps_absent)

lemma set_prop_fixed: "settled k v n \<Longrightarrow> set_prop k v n = n"
  by (auto simp add: settled_def set_prop_def AList.update_triv)

lemma set_props_Cons: "set_props ((k, v) # kvs) n = set_props kvs (set_prop k v n)"
  by (simp add: set_props_def)

lemma set_props_keeps:
  "k \<notin> fst ` set kvs \<Longrightarrow> settled k v n \<Longrightarrow> settled k v (set_props kvs n)"
proof (induction kvs arbitrary: n)
  case Nil
  then show ?case by (simp add: set_props_def)
next
  case (Cons kv kvs)
  obtain k' v' where kv: "kv = (k', v')" by (cases kv)
  have "settled k v (set_prop k' v' n)"
    using Cons.prems kv by (auto intro: set_prop_keeps)
  then show ?case using Cons.IH Cons.prems kv by (simp add: set_props_Cons)
qed

lemma set_props_settles:
  "distinct (map fst kvs) \<Longrightarrow> (k, v) \<in> set kvs \<Longrightarrow> settled k v (set_props kvs n)"
proof (induction kvs arbitrary: n)
  case Nil
  then show ?case by simp
next
  case (Cons kv kvs)
  obtain k' v' where kv: "kv = (k', v')" by (cases kv)
  show ?case
  proof (cases "(k, v) = (k', v')")
    case True
    have "k \<notin> fst ` set kvs" using Cons.prems(1) kv True by auto
    then show ?thesis
      using set_props_keeps [OF _ set_prop_settles, of k kvs v n] kv True
      by (simp add: set_props_Cons)
  next
    case False
    then have "(k, v) \<in> set kvs" "distinct (map fst kvs)" using Cons.prems kv by auto
    then show ?thesis using Cons.IH kv by (simp add: set_props_Cons)
  qed
qed

lemma set_props_fixed:
  "\<forall>(k, v) \<in> set kvs. settled k v n \<Longrightarrow> set_props kvs n = n"
  by (induction kvs) (auto simp add: set_props_Cons set_prop_fixed set_props_def)

lemma set_props_idem:
  "distinct (map fst kvs) \<Longrightarrow> set_props kvs (set_props kvs n) = set_props kvs n"
  by (rule set_props_fixed) (auto intro: set_props_settles)

lemma set_props_labels [simp]: "labels (set_props kvs n) = labels n"
  by (induction kvs arbitrary: n) (auto simp add: set_props_def set_prop_def)

lemma set_props_prop_other:
  "k \<notin> fst ` set kvs \<Longrightarrow> prop_of k (set_props kvs n) = prop_of k n"
  by (induction kvs arbitrary: n)
     (auto simp add: set_props_def set_prop_def prop_of_def AList.update_conv' AList.delete_conv')

lemma remove_label_idem: "remove_label l (remove_label l n) = remove_label l n"
  by (simp add: remove_label_def)

lemma set_prop_remove_label:
  "set_prop k v (remove_label l n) = remove_label l (set_prop k v n)"
  by (simp add: set_prop_def remove_label_def)

lemma set_props_remove_label:
  "set_props kvs (remove_label l n) = remove_label l (set_props kvs n)"
proof (induction kvs arbitrary: n)
  case Nil
  then show ?case by (simp add: set_props_def)
next
  case (Cons kv kvs)
  obtain k v where kv: "kv = (k, v)" by (cases kv)
  show ?case using Cons.IH kv by (simp add: set_props_Cons set_prop_remove_label)
qed

lemma graph_run_shape:
  assumes "graph_run q ps g = Inr g'"
  obtains u A kvs g1 where
    "ps ''url'' = Some u" "u \<noteq> VNull" "missing_params q ps = []"
    "MERGE1 (anchor q) ''url'' False u g = Inr (A, g1)"
    "eval_sets ps (sets q) = Inr kvs"
    "run_links ps (links q) A
       ((if hydrate q then REMOVE A ''Placeholder'' else id) (SET A kvs g1)) = Inr g'"
proof -
  from assms obtain u A kvs g1 where
    a: "missing_params q ps = []" "eval_expr ps (Param ''url'') = Inr u"
       "MERGE1 (anchor q) ''url'' False u g = Inr (A, g1)"
       "eval_sets ps (sets q) = Inr kvs"
       "run_links ps (links q) A
          ((if hydrate q then REMOVE A ''Placeholder'' else id) (SET A kvs g1)) = Inr g'"
    by (auto simp add: graph_run_def split: list.splits sum.splits)
  have "ps ''url'' = Some u" using a(2) by (auto split: option.splits)
  moreover have "u \<noteq> VNull" using MERGE1_find [OF a(3)] by simp
  ultimately show ?thesis using a that by blast
qed

lemma eval_sets_keys: "eval_sets ps kes = Inr kvs \<Longrightarrow> map fst kvs = map fst kes"
  by (induction kes arbitrary: kvs) (auto split: sum.splits)

lemma find_nodes_fold_update:
  assumes "\<And>n. matches l k v (f n) = matches l k v n"
  shows "find_nodes l k v (fold (\<lambda>i. update_node i f) rows g) = find_nodes l k v g"
proof (induction rows arbitrary: g)
  case Nil
  then show ?case by simp
next
  case (Cons i rows)
  have "find_nodes l k v (update_node i f g) = find_nodes l k v g"
  proof (rule find_nodes_cong)
    show "length (nodes (update_node i f g)) = length (nodes g)"
      by (simp add: update_node_def)
    fix j assume "j < length (nodes g)"
    then show "matches l k v (nodes (update_node i f g) ! j) = matches l k v (nodes g ! j)"
      by (cases "i = j") (simp_all add: update_node_def assms)
  qed
  then show ?case using Cons.IH [of "update_node i f g"] by simp
qed

lemma matches_set_props:
  "k \<notin> fst ` set kvs \<Longrightarrow> matches l k v (set_props kvs n) = matches l k v n"
  by (simp add: matches_def has_label_def set_props_prop_other)

lemma matches_remove_label:
  "l \<noteq> l' \<Longrightarrow> matches l k v (remove_label l' n) = matches l k v n"
  by (simp add: matches_def has_label_def remove_label_def prop_of_def)

lemma find_nodes_anchor_update:
  assumes "k \<notin> fst ` set kvs" "l \<noteq> ''Placeholder''"
  shows "find_nodes l k v ((if b then REMOVE A ''Placeholder'' else id) (SET A kvs g))
           = find_nodes l k v g"
  using assms
  by (simp add: REMOVE_def SET_def find_nodes_fold_update matches_set_props matches_remove_label)

lemma anchor_update_length [simp]:
  "length (nodes ((if b then REMOVE A l else id) (SET A kvs g))) = length (nodes g)"
  by (simp add: REMOVE_def SET_def)

lemma anchor_update_rels [simp]:
  "rels ((if b then REMOVE A l else id) (SET A kvs g)) = rels g"
  by (simp add: REMOVE_def SET_def)

lemma anchor_update_nth:
  assumes "distinct (map fst kvs)" "j < length (nodes g)"
  shows "nodes ((if b then REMOVE A l else id) (SET A kvs g)) ! j =
     (if j \<in> set A then (if b then remove_label l else id) (set_props kvs (nodes g ! j))
      else nodes g ! j)"
  using assms
  by (simp add: REMOVE_def SET_def fold_update_nth set_props_idem remove_label_idem)

lemma anchor_update_fixed:
  assumes "\<And>j. j \<in> set A \<Longrightarrow> j < length (nodes g) \<Longrightarrow>
      set_props kvs (nodes g ! j) = nodes g ! j \<and> (b \<longrightarrow> remove_label l (nodes g ! j) = nodes g ! j)"
  shows "(if b then REMOVE A l else id) (SET A kvs g) = g"
proof -
  have "SET A kvs g = g"
    unfolding SET_def using assms by (intro fold_update_fixed) simp
  moreover have "b \<Longrightarrow> REMOVE A l g = g"
    unfolding REMOVE_def using assms by (intro fold_update_fixed) simp
  ultimately show ?thesis by simp
qed

lemma graph_run_idem:
  assumes wf: "wf_query q" and run: "graph_run q ps g = Inr g'"
  shows "graph_run q ps g' = Inr g'"
proof -
  from run obtain u A kvs g1 where
    u: "ps ''url'' = Some u" "u \<noteq> VNull" and mp: "missing_params q ps = []"
    and m: "MERGE1 (anchor q) ''url'' False u g = Inr (A, g1)"
    and kvs: "eval_sets ps (sets q) = Inr kvs"
    and ls: "run_links ps (links q) A
       ((if hydrate q then REMOVE A ''Placeholder'' else id) (SET A kvs g1)) = Inr g'"
    by (rule graph_run_shape)
  define g2 where "g2 = (if hydrate q then REMOVE A ''Placeholder'' else id) (SET A kvs g1)"
  have keys: "map fst kvs = map fst (sets q)" using eval_sets_keys [OF kvs] .
  have dk: "distinct (map fst kvs)" and nu: "''url'' \<notin> fst ` set kvs"
    using wf keys unfolding wf_query_def by (simp_all del: set_map add: set_map [symmetric])
  have ap: "anchor q \<noteq> ''Placeholder''" using wf by (auto simp add: wf_query_def)
  have A1: "find_nodes (anchor q) ''url'' u g1 = A" "A \<noteq> []"
    using MERGE1_find [OF m] by auto
  have A2: "find_nodes (anchor q) ''url'' u g2 = A"
    unfolding g2_def using find_nodes_anchor_update [OF nu ap] A1 by simp
  from run_links_grows [OF ls] obtain ns extra where
    gr: "nodes g' = nodes g2 @ ns" "\<forall>n \<in> set ns. \<exists>L \<in> set (links q). link_node ps L n"
    unfolding g2_def by blast
  have na: "\<forall>n \<in> set ns. \<not> matches (anchor q) ''url'' u n"
  proof
    fix n assume "n \<in> set ns"
    then obtain L where L: "L \<in> set (links q)" "link_node ps L n" using gr(2) by blast
    have "anchor q \<noteq> tlabel L" using wf L(1) by (auto simp add: wf_query_def)
    moreover from L(2) obtain v where "n = fresh_node (tlabel L) (tkey L) v (stub L)"
      unfolding link_node_def by blast
    ultimately show "\<not> matches (anchor q) ''url'' u n"
      using ap by (simp add: matches_def)
  qed
  have A3: "find_nodes (anchor q) ''url'' u g' = A"
    using find_nodes_append [OF gr(1) na] A2 by simp
  have step1: "MERGE1 (anchor q) ''url'' False u g' = Inr (A, g')"
    using A3 A1(2) u(2) by (simp add: MERGE1_def)
  have step2: "(if hydrate q then REMOVE A ''Placeholder'' else id) (SET A kvs g') = g'"
  proof (rule anchor_update_fixed)
    fix j assume j: "j \<in> set A" "j < length (nodes g')"
    have j1: "j < length (nodes g1)" using j(1) A1(1) find_nodes_bound by blast
    then have j2: "nodes g' ! j = nodes g2 ! j"
      using gr(1) by (simp add: g2_def nth_append)
    have "nodes g2 ! j =
        (if hydrate q then remove_label ''Placeholder'' else id) (set_props kvs (nodes g1 ! j))"
      unfolding g2_def using anchor_update_nth [OF dk j1] j(1) by simp
    with j2 show "set_props kvs (nodes g' ! j) = nodes g' ! j \<and>
        (hydrate q \<longrightarrow> remove_label ''Placeholder'' (nodes g' ! j) = nodes g' ! j)"
      by (simp add: set_props_remove_label set_props_idem [OF dk] remove_label_idem)
  qed
  have step3: "run_links ps (links q) A g' = Inr g'"
  proof (rule run_links_replay [of "links q" ps A g2 g' g' "[]"])
    show "distinct (map tlabel (links q))" using wf by (simp add: wf_query_def)
    show "''Placeholder'' \<notin> set (map tlabel (links q))" using wf by (simp add: wf_query_def)
    show "run_links ps (links q) A g2 = Inr g'" using ls by (simp add: g2_def)
  qed simp_all
  show ?thesis
    using mp u(1) step1 kvs step2 step3 by (simp add: graph_run_def)
qed

lemma wf_swapi_queries: "q \<in> set swapi_queries \<Longrightarrow> wf_query q"
  by (auto simp add: swapi_queries_def wf_query_def copy_def CREATE_MOVIE_QUERY_def
      CREATE_PERSON_QUERY_def CREATE_PLANET_QUERY_def CREATE_SPECIES_QUERY_def
      CREATE_STARSHIP_QUERY_def CREATE_VEHICLE_QUERY_def)


subsection \<open>What a transaction does to the nodes that exist\<close>

lemma set_props_inv:
  assumes "\<And>n k v. Q n \<Longrightarrow> Q (set_prop k v n)"
  shows "Q n \<Longrightarrow> Q (set_props kvs n)"
proof (induction kvs arbitrary: n)
  case Nil
  then show ?case by (simp add: set_props_def)
next
  case (Cons kv kvs)
  obtain k v where kv: "kv = (k, v)" by (cases kv)
  show ?case using Cons assms kv by (simp add: set_props_Cons)
qed

lemma anchor_update_inv:
  assumes "\<And>n k v. Q n \<Longrightarrow> Q (set_prop k v n)" "\<And>n. Q n \<Longrightarrow> Q (remove_label l n)"
    and "j < length (nodes g)" "Q (nodes g ! j)"
  shows "Q (nodes ((if b then REMOVE A l else id) (SET A kvs g)) ! j)"
proof -
  have sp: "\<And>n. Q n \<Longrightarrow> Q (set_props kvs n)"
    using assms(1) by (rule set_props_inv [where Q = Q])
  have 1: "Q (nodes (SET A kvs g) ! j)"
    unfolding SET_def using sp assms(3,4) by (rule fold_update_inv [where Q = Q])
  have len: "j < length (nodes (SET A kvs g))"
    using assms(3) by (simp add: SET_def)
  have "Q (nodes (REMOVE A l (SET A kvs g)) ! j)"
    unfolding REMOVE_def using assms(2) len 1 by (rule fold_update_inv [where Q = Q])
  with 1 show ?thesis by simp
qed

lemma MERGE1_old:
  "MERGE1 l k ph v g = Inr (ms, g1) \<Longrightarrow> i < length (nodes g) \<Longrightarrow>
   i < length (nodes g1) \<and> nodes g1 ! i = nodes g ! i"
  using MERGE1_nodes [of l k ph v g ms g1] by (auto simp add: nth_append)

lemma graph_run_old_inv:
  assumes run: "graph_run q ps g = Inr g'"
    and Q: "\<And>n k v. Q n \<Longrightarrow> Q (set_prop k v n)" "\<And>n. Q n \<Longrightarrow> Q (remove_label ''Placeholder'' n)"
    and i: "i < length (nodes g)" "Q (nodes g ! i)"
  shows "i < length (nodes g') \<and> Q (nodes g' ! i)"
proof -
  from run obtain u A kvs g1 where
    m: "MERGE1 (anchor q) ''url'' False u g = Inr (A, g1)"
    and ls: "run_links ps (links q) A
       ((if hydrate q then REMOVE A ''Placeholder'' else id) (SET A kvs g1)) = Inr g'"
    by (rule graph_run_shape)
  define g2 where "g2 = (if hydrate q then REMOVE A ''Placeholder'' else id) (SET A kvs g1)"
  have i1: "i < length (nodes g1)" "Q (nodes g1 ! i)"
    using MERGE1_old [OF m i(1)] i(2) by simp_all
  have i2: "i < length (nodes g2)" "Q (nodes g2 ! i)"
    unfolding g2_def using i1 anchor_update_inv [of Q "''Placeholder''" i g1, OF Q i1]
    by simp_all
  from run_links_grows [OF ls] obtain ns where "nodes g' = nodes g2 @ ns"
    unfolding g2_def by blast
  then show ?thesis using i2 by (simp add: nth_append)
qed

lemma graph_run_rels:
  assumes run: "graph_run q ps g = Inr g'"
  shows "\<exists>extra. rels g' = rels g @ extra \<and>
     (\<forall>e \<in> set extra. \<exists>L \<in> set (links q). fst (snd e) = rtype L)"
proof -
  from run obtain u A kvs g1 where
    m: "MERGE1 (anchor q) ''url'' False u g = Inr (A, g1)"
    and ls: "run_links ps (links q) A
       ((if hydrate q then REMOVE A ''Placeholder'' else id) (SET A kvs g1)) = Inr g'"
    by (rule graph_run_shape)
  have "rels g1 = rels g" using MERGE1_nodes [OF m] by simp
  then show ?thesis using run_links_grows [OF ls] by auto
qed

lemma store_after_hydrated: "hydrated g i \<Longrightarrow> hydrated (store_after q ps g) i"
proof (cases "graph_run q ps g")
  case (Inl e)
  assume "hydrated g i"
  then show ?thesis using Inl by (simp add: store_after_def)
next
  case (Inr g')
  assume h: "hydrated g i"
  have "i < length (nodes g') \<and> \<not> has_label ''Placeholder'' (nodes g' ! i)"
    using h
    by (intro graph_run_old_inv [OF Inr, where Q = "\<lambda>n. \<not> has_label ''Placeholder'' n"])
       (simp_all add: hydrated_def has_label_def set_prop_def remove_label_def)
  then show ?thesis using Inr by (simp add: store_after_def hydrated_def)
qed

subsection \<open>The nodes a transaction creates\<close>

lemma in_set_drop_iff:
  "x \<in> set (drop n xs) \<longleftrightarrow> (\<exists>i. n \<le> i \<and> i < length xs \<and> xs ! i = x)"
proof
  assume "x \<in> set (drop n xs)"
  then obtain j where j: "j < length (drop n xs)" "drop n xs ! j = x"
    by (auto simp add: in_set_conv_nth)
  then have "n \<le> n + j \<and> n + j < length xs \<and> xs ! (n + j) = x" by auto
  then show "\<exists>i. n \<le> i \<and> i < length xs \<and> xs ! i = x" by blast
next
  assume "\<exists>i. n \<le> i \<and> i < length xs \<and> xs ! i = x"
  then obtain i where i: "n \<le> i" "i < length xs" "xs ! i = x" by blast
  then have "i - n < length (drop n xs)" "drop n xs ! (i - n) = x" by auto
  then show "x \<in> set (drop n xs)" by (auto simp add: in_set_conv_nth)
qed

lemma graph_run_created:
  assumes run: "graph_run q ps g = Inr g'"
  shows "length (nodes g) \<le> length (nodes g') \<and>
    (\<forall>n \<in> set (created g g').
       set (labels n) \<subseteq> {anchor q} \<or> (\<exists>L \<in> set (links q). link_node ps L n))"
proof -
  from run obtain u A kvs g1 where
    m: "MERGE1 (anchor q) ''url'' False u g = Inr (A, g1)"
    and ls: "run_links ps (links q) A
       ((if hydrate q then REMOVE A ''Placeholder'' else id) (SET A kvs g1)) = Inr g'"
    by (rule graph_run_shape)
  define g2 where "g2 = (if hydrate q then REMOVE A ''Placeholder'' else id) (SET A kvs g1)"
  let ?Q = "\<lambda>n. set (labels n) \<subseteq> {anchor q}"
  have Q: "\<And>n k v. ?Q n \<Longrightarrow> ?Q (set_prop k v n)"
    "\<And>n. ?Q n \<Longrightarrow> ?Q (remove_label ''Placeholder'' n)"
    by (auto simp add: set_prop_def remove_label_def)
  have len1: "length (nodes g) \<le> length (nodes g1)"
    and new1: "\<forall>i. length (nodes g) \<le> i \<and> i < length (nodes g1) \<longrightarrow> ?Q (nodes g1 ! i)"
    using MERGE1_nodes [OF m] by (auto simp add: nth_append fresh_node_def)
  have len2: "length (nodes g2) = length (nodes g1)" by (simp add: g2_def)
  have new2: "\<forall>i. length (nodes g) \<le> i \<and> i < length (nodes g2) \<longrightarrow> ?Q (nodes g2 ! i)"
  proof (intro allI impI)
    fix i assume i: "length (nodes g) \<le> i \<and> i < length (nodes g2)"
    then have "i < length (nodes g1)" "?Q (nodes g1 ! i)" using len2 new1 by auto
    then show "?Q (nodes g2 ! i)"
      unfolding g2_def
      by (intro anchor_update_inv [where Q = ?Q and l = "''Placeholder''"] Q)
  qed
  from run_links_grows [OF ls] obtain ns where
    gr: "nodes g' = nodes g2 @ ns" "\<forall>n \<in> set ns. \<exists>L \<in> set (links q). link_node ps L n"
    unfolding g2_def by blast
  have c: "created g g' = drop (length (nodes g)) (nodes g2) @ ns"
    using gr(1) len1 len2 by (simp add: created_def)
  have d: "\<forall>n \<in> set (drop (length (nodes g)) (nodes g2)). ?Q n"
  proof
    fix n assume "n \<in> set (drop (length (nodes g)) (nodes g2))"
    then obtain i where "length (nodes g) \<le> i" "i < length (nodes g2)" "nodes g2 ! i = n"
      unfolding in_set_drop_iff by blast
    then show "?Q n" using new2 by blast
  qed
  show ?thesis
  proof (intro conjI ballI)
    show "length (nodes g) \<le> length (nodes g')" using gr(1) len1 len2 by simp
  next
    fix n assume "n \<in> set (created g g')"
    then have "n \<in> set (drop (length (nodes g)) (nodes g2)) \<or> n \<in> set ns"
      using c by simp
    then show "?Q n \<or> (\<exists>L \<in> set (links q). link_node ps L n)"
      using d gr(2) by blast
  qed
qed

lemma created_nth:
  "length (nodes g) \<le> i \<Longrightarrow> i < length (nodes g') \<Longrightarrow> nodes g' ! i \<in> set (created g g')"
  by (auto simp add: created_def in_set_drop_iff)

lemma graph_run_rels_of_type:
  assumes run: "graph_run q ps g = Inr g'" and t: "t \<notin> set (map rtype (links q))"
  shows "rels_of_type t g' = rels_of_type t g"
proof -
  from graph_run_rels [OF run] obtain extra where
    ex: "rels g' = rels g @ extra" "\<forall>e \<in> set extra. \<exists>L \<in> set (links q). fst (snd e) = rtype L"
    by blast
  have "filter (\<lambda>e. fst (snd e) = t) extra = []"
    using ex(2) t by (auto simp add: filter_empty_conv)
  then show ?thesis using ex(1) by (simp add: rels_of_type_def)
qed

subsection \<open>Only the parameters a query names matter\<close>

lemma eval_expr_cong:
  "\<forall>k \<in> set (params_of e). ps k = ps' k \<Longrightarrow> eval_expr ps e = eval_expr ps' e"
  by (induction e) simp_all

lemma eval_sets_cong:
  "\<forall>k \<in> set (concat (map (\<lambda>(k, e). params_of e) kes)). ps k = ps' k \<Longrightarrow>
   eval_sets ps kes = eval_sets ps' kes"
proof (induction kes)
  case Nil
  then show ?case by simp
next
  case (Cons ke kes)
  obtain k e where ke: "ke = (k, e)" by (cases ke)
  have "eval_expr ps e = eval_expr ps' e"
    using Cons.prems ke by (intro eval_expr_cong) simp
  moreover have "eval_sets ps kes = eval_sets ps' kes"
    using Cons by simp
  ultimately show ?case using ke by (simp split: sum.splits)
qed

lemma source_vals_cong:
  "\<forall>k \<in> set (params_of (source_expr s)). ps k = ps' k \<Longrightarrow> source_vals ps s = source_vals ps' s"
  using eval_expr_cong [of "source_expr s" ps ps'] by (cases s) simp_all

lemma run_links_cong:
  "\<forall>k \<in> set (concat (map (\<lambda>L. params_of (source_expr (src L))) Ls)). ps k = ps' k \<Longrightarrow>
   run_links ps Ls rows g = run_links ps' Ls rows g"
proof (induction Ls arbitrary: rows g)
  case Nil
  then show ?case by simp
next
  case (Cons L Ls)
  have "source_vals ps (src L) = source_vals ps' (src L)"
    using Cons.prems by (intro source_vals_cong) simp
  then have "run_link ps L rows g = run_link ps' L rows g"
    by (simp add: run_link_def)
  moreover have "\<And>rows g. run_links ps Ls rows g = run_links ps' Ls rows g"
    using Cons by simp
  ultimately show ?case by (simp split: sum.splits)
qed

lemma graph_run_cong:
  assumes "\<forall>k \<in> set (query_params q). ps k = ps' k"
  shows "graph_run q ps g = graph_run q ps' g"
proof -
  have 1: "missing_params q ps = missing_params q ps'"
    using assms by (auto simp add: missing_params_def intro: filter_cong)
  have 2: "eval_expr ps (Param ''url'') = eval_expr ps' (Param ''url'')"
    using assms by (simp add: query_params_def)
  have 3: "eval_sets ps (sets q) = eval_sets ps' (sets q)"
    using assms by (intro eval_sets_cong) (simp add: query_params_def)
  have 4: "\<And>rows g. run_links ps (links q) rows g = run_links ps' (links q) rows g"
    using assms by (intro run_links_cong) (simp add: query_params_def)
  show ?thesis
    by (simp only: graph_run_def 1 2 3 4)
qed

lemma graph_run_no_links:
  assumes "graph_run q ps g = Inr g'" "links q = []"
  shows "rels g' = rels g"
proof -
  from graph_run_rels [OF assms(1)] obtain extra where
    ex: "rels g' = rels g @ extra" "\<forall>e \<in> set extra. \<exists>L \<in> set (links q). fst (snd e) = rtype L"
    by blast
  have "extra = []"
  proof (cases extra)
    case Nil
    then show ?thesis .
  next
    case (Cons e es)
    then have "\<exists>L \<in> set (links q). fst (snd e) = rtype L" using ex(2) by simp
    then show ?thesis using assms(2) by simp
  qed
  then show ?thesis using ex(1) by simp
qed

lemma created_same [simp]: "created g g = []"
  by (simp add: created_def)

subsection \<open>Fields the queries do not name\<close>

lemma store_after_rels_of_type:
  "t \<notin> set (map rtype (links q)) \<Longrightarrow> rels_of_type t (store_after q ps g) = rels_of_type t g"
  by (cases "graph_run q ps g") (simp_all add: store_after_def graph_run_rels_of_type)

lemma store_after_created:
  "n \<in> set (created g (store_after q ps g)) \<Longrightarrow>
   set (labels n) \<subseteq> {anchor q} \<or> (\<exists>L \<in> set (links q). link_node ps L n)"
  using graph_run_created [of q ps g]
  by (cases "graph_run q ps g") (simp_all add: store_after_def)

subsection \<open>Tag entities\<close>

lemma swapi_tag_links:
  assumes "q \<in> set swapi_queries"
  shows "anchor q \<notin> set tag_kinds \<and>
         (\<forall>L \<in> set (links q). tlabel L \<in> set tag_kinds \<longrightarrow> \<not> stub L \<and> tkey L = tag_key (tlabel L))"
  using assms
  by (auto simp add: swapi_queries_def tag_kinds_def tag_key_def
      CREATE_MOVIE_QUERY_def CREATE_PERSON_QUERY_def CREATE_PLANET_QUERY_def
      CREATE_SPECIES_QUERY_def CREATE_STARSHIP_QUERY_def CREATE_VEHICLE_QUERY_def)

lemma placeholder_not_tag: "''Placeholder'' \<notin> set tag_kinds"
  by (simp add: tag_kinds_def)

lemma created_tag:
  assumes q: "q \<in> set swapi_queries" and run: "graph_run q ps g = Inr g'"
    and n: "n \<in> set (created g g')" "is_tag n"
  shows "\<exists>t v. t \<in> set tag_kinds \<and> v \<noteq> VNull \<and> n = \<lparr>labels = [t], props = [(tag_key t, v)]\<rparr>"
proof -
  from n(2) obtain t where t: "t \<in> set tag_kinds" "has_label t n"
    by (auto simp add: is_tag_def)
  from graph_run_created [OF run] n(1)
  consider "set (labels n) \<subseteq> {anchor q}" | L where "L \<in> set (links q)" "link_node ps L n"
    by blast
  then show ?thesis
  proof cases
    case 1
    then have "t = anchor q" using t(2) by (auto simp add: has_label_def)
    then show ?thesis using swapi_tag_links [OF q] t(1) by simp
  next
    case 2
    from 2(2) obtain v where v: "v \<noteq> VNull" "n = fresh_node (tlabel L) (tkey L) v (stub L)"
      unfolding link_node_def by blast
    have "t = tlabel L" using t v(2) placeholder_not_tag by auto
    then have "\<not> stub L" "tkey L = tag_key t"
      using swapi_tag_links [OF q] 2(1) t(1) by auto
    then show ?thesis using v t(1) \<open>t = tlabel L\<close> by (auto simp add: fresh_node_def)
  qed
qed

lemma type_of_label: "type_of n = Some t \<Longrightarrow> has_label t n"
  by (auto simp add: type_of_def has_label_def split: list.splits if_splits)

lemma FIND_NEW_ENTITY_QUERY_Some:
  "FIND_NEW_ENTITY_QUERY r g = Some (u, ty) \<Longrightarrow>
   \<exists>i \<in> set (placeholders g). u = prop_of ''url'' (nodes g ! i) \<and> ty = type_of (nodes g ! i)"
proof -
  assume a: "FIND_NEW_ENTITY_QUERY r g = Some (u, ty)"
  then obtain i "is" where ph: "placeholders g = i # is"
    by (auto simp add: FIND_NEW_ENTITY_QUERY_def split: list.splits)
  have "(i # is) ! (r mod length (i # is)) \<in> set (i # is)"
    by (rule nth_mem) simp
  then show ?thesis using a ph by (auto simp add: FIND_NEW_ENTITY_QUERY_def Let_def)
qed

lemma placeholders_iff:
  "i \<in> set (placeholders g) \<longleftrightarrow> i < length (nodes g) \<and> has_label ''Placeholder'' (nodes g ! i)"
  by (auto simp add: placeholders_def)

subsection \<open>What a block leaves behind\<close>

lemma MERGE_post:
  "MERGE l k ph rs g = Inr (out, g2) \<Longrightarrow> (p, v) \<in> set rs \<Longrightarrow>
   \<exists>m. (p, m) \<in> set out \<and> m \<in> set (find_nodes l k v g2)"
proof (induction rs arbitrary: g out)
  case Nil
  then show ?case by simp
next
  case (Cons row rs)
  obtain p' v' where row: "row = (p', v')" by (cases row)
  from Cons.prems(1) row obtain ms g1 out' where
    m1: "MERGE1 l k ph v' g = Inr (ms, g1)" and m2: "MERGE l k ph rs g1 = Inr (out', g2)"
    and out: "out = map (Pair p') ms @ out'"
    by (auto split: sum.splits)
  show ?case
  proof (cases "(p, v) = (p', v')")
    case True
    have f1: "find_nodes l k v g1 = ms" "ms \<noteq> []" using MERGE1_find [OF m1] True by auto
    have "find_nodes l k v g2 = ms" using MERGE_stable [OF m2, of v] f1 by simp
    moreover have "hd ms \<in> set ms" using f1(2) by simp
    ultimately have "(p, hd ms) \<in> set out \<and> hd ms \<in> set (find_nodes l k v g2)"
      using out True by auto
    then show ?thesis by blast
  next
    case False
    then have "(p, v) \<in> set rs" using Cons.prems(2) row by auto
    from Cons.IH [OF m2 this] show ?thesis using out by auto
  qed
qed

lemma MERGE_rows:
  "MERGE l k ph rs g = Inr (out, g2) \<Longrightarrow> fst ` set out = fst ` set rs"
proof (induction rs arbitrary: g out)
  case Nil
  then show ?case by simp
next
  case (Cons row rs)
  obtain p' v' where row: "row = (p', v')" by (cases row)
  from Cons.prems(1) row obtain ms g1 out' where
    m1: "MERGE1 l k ph v' g = Inr (ms, g1)" and m2: "MERGE l k ph rs g1 = Inr (out', g2)"
    and out: "out = map (Pair p') ms @ out'"
    by (auto split: sum.splits)
  have "ms \<noteq> []" using MERGE1_find [OF m1] by simp
  then have "fst ` set (map (Pair p') ms) = {p'}" by (cases ms) auto
  then show ?case using Cons.IH [OF m2] out row by (simp add: image_Un)
qed

lemma find_nodes_nodes_cong: "nodes h = nodes g \<Longrightarrow> find_nodes l k v h = find_nodes l k v g"
  by (simp add: find_nodes_def)

lemma find_nodes_mono:
  "nodes h = nodes g @ ns \<Longrightarrow> m \<in> set (find_nodes l k v g) \<Longrightarrow> m \<in> set (find_nodes l k v h)"
  by (auto simp add: find_nodes_matches nth_append)

lemma set_WITH [simp]: "set (WITH d rows) = set rows"
  by (simp add: WITH_def)

lemma set_UNWIND: "set (UNWIND vs rows) = set rows \<times> set vs"
  by (auto simp add: UNWIND_def)

lemma run_link_post:
  assumes run: "run_link ps L rows g = Inr (rows', g')"
    and vs: "source_vals ps (src L) = Inr vs" and p: "p \<in> set rows" and v: "v \<in> set vs"
  shows "\<exists>m. m \<in> set (find_nodes (tlabel L) (tkey L) v g') \<and>
             edge (rdir L) p (rtype L) m \<in> set (rels g')"
proof -
  have ne: "rows \<noteq> []" using p by auto
  from run ne vs obtain out g1 where
    m: "MERGE (tlabel L) (tkey L) (stub L) (UNWIND vs rows) g = Inr (out, g1)"
    and g': "g' = CREATE_UNIQUE (rtype L) (map (orient (rdir L)) out) g1"
    by (auto simp add: run_link_def split: sum.splits)
  have "(p, v) \<in> set (UNWIND vs rows)" using p v by (simp add: set_UNWIND)
  from MERGE_post [OF m this] obtain m where
    mm: "(p, m) \<in> set out" "m \<in> set (find_nodes (tlabel L) (tkey L) v g1)"
    by blast
  have "m \<in> set (find_nodes (tlabel L) (tkey L) v g')"
    using mm(2) find_nodes_nodes_cong [of g' g1] g' by simp
  moreover have "edge (rdir L) p (rtype L) m \<in> set (rels g')"
  proof -
    obtain a b where ab: "orient (rdir L) (p, m) = (a, b)"
      by (cases "orient (rdir L) (p, m)")
    have "(a, b) \<in> set (map (orient (rdir L)) out)"
      using mm(1) ab by force
    then have "(a, rtype L, b) \<in> set (rels g')"
      unfolding g' by (rule CREATE_UNIQUE_present)
    then show ?thesis by (simp add: edge_def ab)
  qed
  ultimately show ?thesis by blast
qed

lemma run_link_rows:
  assumes run: "run_link ps L rows g = Inr (rows', g')"
    and vs: "source_vals ps (src L) = Inr vs" "vs \<noteq> []"
  shows "set rows' = set rows"
proof (cases "rows = []")
  case True
  then show ?thesis using run by (simp add: run_link_def)
next
  case False
  from run False vs obtain out g1 where
    m: "MERGE (tlabel L) (tkey L) (stub L) (UNWIND vs rows) g = Inr (out, g1)"
    and rows': "rows' = WITH (distinct_after L) (map fst out)"
    by (auto simp add: run_link_def split: sum.splits)
  have "fst ` set out = fst ` (set rows \<times> set vs)"
    using MERGE_rows [OF m] by (simp add: set_UNWIND)
  also have "\<dots> = set rows" using vs(2) by (cases vs) auto
  finally show ?thesis using rows' by simp
qed

lemma run_links_post:
  "run_links ps Ls rows g = Inr g' \<Longrightarrow> j < length Ls \<Longrightarrow>
   \<forall>i<j. \<exists>ws. source_vals ps (src (Ls ! i)) = Inr ws \<and> ws \<noteq> [] \<Longrightarrow>
   source_vals ps (src (Ls ! j)) = Inr vs \<Longrightarrow> p \<in> set rows \<Longrightarrow> v \<in> set vs \<Longrightarrow>
   \<exists>m. m \<in> set (find_nodes (tlabel (Ls ! j)) (tkey (Ls ! j)) v g') \<and>
       edge (rdir (Ls ! j)) p (rtype (Ls ! j)) m \<in> set (rels g')"
proof (induction Ls arbitrary: rows g j)
  case Nil
  then show ?case by simp
next
  case (Cons L Ls)
  from Cons.prems(1) obtain rows1 g1 where
    l1: "run_link ps L rows g = Inr (rows1, g1)" and l2: "run_links ps Ls rows1 g1 = Inr g'"
    by (auto split: sum.splits)
  show ?case
  proof (cases j)
    case 0
    from run_link_post [OF l1 _ Cons.prems(5,6)] Cons.prems(4) 0 obtain m where
      m: "m \<in> set (find_nodes (tlabel L) (tkey L) v g1)"
         "edge (rdir L) p (rtype L) m \<in> set (rels g1)"
      by auto
    from run_links_grows [OF l2] obtain ns extra where
      gr: "nodes g' = nodes g1 @ ns" "rels g' = rels g1 @ extra" by blast
    have "m \<in> set (find_nodes (tlabel L) (tkey L) v g')"
      using find_nodes_mono [OF gr(1) m(1)] .
    moreover have "edge (rdir L) p (rtype L) m \<in> set (rels g')" using m(2) gr(2) by simp
    ultimately show ?thesis using 0 by auto
  next
    case (Suc j')
    from Cons.prems(3) Suc obtain ws where
      ws: "source_vals ps (src L) = Inr ws" "ws \<noteq> []" by fastforce
    have rows1: "set rows1 = set rows" using run_link_rows [OF l1 ws] .
    have "\<exists>m. m \<in> set (find_nodes (tlabel (Ls ! j')) (tkey (Ls ! j')) v g') \<and>
       edge (rdir (Ls ! j')) p (rtype (Ls ! j')) m \<in> set (rels g')"
    proof (rule Cons.IH [OF l2])
      show "j' < length Ls" using Cons.prems(2) Suc by simp
      show "\<forall>i<j'. \<exists>ws. source_vals ps (src (Ls ! i)) = Inr ws \<and> ws \<noteq> []"
        using Cons.prems(3) Suc by fastforce
      show "source_vals ps (src (Ls ! j')) = Inr vs" using Cons.prems(4) Suc by simp
      show "p \<in> set rows1" using rows1 Cons.prems(5) by simp
      show "v \<in> set vs" using Cons.prems(6) .
    qed
    then show ?thesis using Suc by simp
  qed
qed

subsection \<open>The anchor nodes after a transaction\<close>

lemma graph_run_anchor:
  assumes wf: "wf_query q" and run: "graph_run q ps g = Inr g'" and u: "ps ''url'' = Some u"
  shows "find_nodes (anchor q) ''url'' u g' \<noteq> []"
    and "set (find_nodes (anchor q) ''url'' u g) \<subseteq> set (find_nodes (anchor q) ''url'' u g')"
    and "hydrate q \<Longrightarrow> a \<in> set (find_nodes (anchor q) ''url'' u g') \<Longrightarrow> hydrated g' a"
    and "\<exists>rows g2. set rows = set (find_nodes (anchor q) ''url'' u g') \<and>
           run_links ps (links q) rows g2 = Inr g'"
proof -
  from run obtain u' A kvs g1 where
    u': "ps ''url'' = Some u'" "u' \<noteq> VNull"
    and m: "MERGE1 (anchor q) ''url'' False u' g = Inr (A, g1)"
    and kvs: "eval_sets ps (sets q) = Inr kvs"
    and ls: "run_links ps (links q) A
       ((if hydrate q then REMOVE A ''Placeholder'' else id) (SET A kvs g1)) = Inr g'"
    by (rule graph_run_shape)
  have uu: "u' = u" using u u' by simp
  define g2 where "g2 = (if hydrate q then REMOVE A ''Placeholder'' else id) (SET A kvs g1)"
  have keys: "map fst kvs = map fst (sets q)" using eval_sets_keys [OF kvs] .
  have dk: "distinct (map fst kvs)" and nu: "''url'' \<notin> fst ` set kvs"
    using wf keys unfolding wf_query_def by (simp_all del: set_map add: set_map [symmetric])
  have ap: "anchor q \<noteq> ''Placeholder''" using wf by (auto simp add: wf_query_def)
  have A1: "find_nodes (anchor q) ''url'' u g1 = A" "A \<noteq> []"
    using MERGE1_find [OF m] uu by auto
  have A0: "set (find_nodes (anchor q) ''url'' u g) \<subseteq> set A"
    using m uu by (auto simp add: MERGE1_def split: if_splits)
  have A2: "find_nodes (anchor q) ''url'' u g2 = A"
    unfolding g2_def using find_nodes_anchor_update [OF nu ap] A1 by simp
  from run_links_grows [OF ls] obtain ns extra where
    gr: "nodes g' = nodes g2 @ ns" "\<forall>n \<in> set ns. \<exists>L \<in> set (links q). link_node ps L n"
    unfolding g2_def by blast
  have na: "\<forall>n \<in> set ns. \<not> matches (anchor q) ''url'' u n"
  proof
    fix n assume "n \<in> set ns"
    then obtain L where L: "L \<in> set (links q)" "link_node ps L n" using gr(2) by blast
    have "anchor q \<noteq> tlabel L" using wf L(1) by (auto simp add: wf_query_def)
    moreover from L(2) obtain v where "n = fresh_node (tlabel L) (tkey L) v (stub L)"
      unfolding link_node_def by blast
    ultimately show "\<not> matches (anchor q) ''url'' u n"
      using ap by (simp add: matches_def)
  qed
  have A3: "find_nodes (anchor q) ''url'' u g' = A"
    using find_nodes_append [OF gr(1) na] A2 by simp
  show "find_nodes (anchor q) ''url'' u g' \<noteq> []" using A3 A1(2) by simp
  show "set (find_nodes (anchor q) ''url'' u g) \<subseteq> set (find_nodes (anchor q) ''url'' u g')"
    using A0 A3 by simp
  show "\<exists>rows g2. set rows = set (find_nodes (anchor q) ''url'' u g') \<and>
           run_links ps (links q) rows g2 = Inr g'"
    using ls A3 by blast
  show "hydrated g' a" if h: "hydrate q" and a: "a \<in> set (find_nodes (anchor q) ''url'' u g')"
  proof -
    have aA: "a \<in> set A" using a A3 by simp
    then have a1: "a < length (nodes g1)" using A1(1) find_nodes_bound by blast
    have "nodes g2 ! a = remove_label ''Placeholder'' (set_props kvs (nodes g1 ! a))"
      unfolding g2_def
      using anchor_update_nth [where b = "hydrate q" and A = A and l = "''Placeholder''", OF dk a1]
        aA h by simp
    moreover have "nodes g' ! a = nodes g2 ! a" "a < length (nodes g')"
      using gr(1) a1 by (simp_all add: g2_def nth_append)
    ultimately show ?thesis
      by (simp add: hydrated_def has_label_def remove_label_def)
  qed
qed

subsection \<open>What \<open>split\<close> returns\<close>

text \<open>
  The pieces are the string cut at every delimiter and nothing else: no piece holds the
  delimiter, the pieces joined by the delimiter are the string again (so no character
  is dropped or added, and blank and empty pieces stay), there is one piece more than
  there are delimiters, and no other list of pieces has the first two properties.
\<close>

lemma split_on_nonempty: "split_on d s \<noteq> []"
  by (induction s) (auto split: list.splits)

lemma join_on_Cons_Cons: "join_on d ((c # p) # ps) = c # join_on d (p # ps)"
  by (cases ps) simp_all

lemma split_on_join: "join_on d (split_on d s) = s"
proof (induction s)
  case Nil
  then show ?case by simp
next
  case (Cons c cs)
  obtain p ps where ps: "split_on d cs = p # ps"
    using split_on_nonempty [of d cs] by (cases "split_on d cs") auto
  show ?case
  proof (cases "c = d")
    case True
    then show ?thesis using Cons ps by simp
  next
    case False
    then show ?thesis using Cons ps by (simp add: join_on_Cons_Cons)
  qed
qed

lemma split_on_no_delim: "x \<in> set (split_on d s) \<Longrightarrow> d \<notin> set x"
proof (induction s arbitrary: x)
  case Nil
  then show ?case by simp
next
  case (Cons c cs)
  obtain p ps where ps: "split_on d cs = p # ps"
    using split_on_nonempty [of d cs] by (cases "split_on d cs") auto
  show ?case
  proof (cases "c = d")
    case True
    then show ?thesis using Cons by auto
  next
    case False
    then have "x = c # p \<or> x \<in> set ps" using Cons.prems ps by simp
    moreover have "d \<notin> set p" "\<forall>y \<in> set ps. d \<notin> set y" using Cons.IH ps by simp_all
    ultimately show ?thesis using False by auto
  qed
qed

lemma split_on_length: "length (split_on d s) = Suc (count_list s d)"
proof (induction s)
  case Nil
  then show ?case by simp
next
  case (Cons c cs)
  obtain p ps where ps: "split_on d cs = p # ps"
    using split_on_nonempty [of d cs] by (cases "split_on d cs") auto
  show ?case using Cons ps by auto
qed

lemma split_on_plain: "d \<notin> set x \<Longrightarrow> split_on d x = [x]"
  by (induction x) auto

lemma split_on_append: "d \<notin> set x \<Longrightarrow> split_on d (x @ d # r) = x # split_on d r"
  by (induction x) auto

lemma split_on_unique:
  "xs \<noteq> [] \<Longrightarrow> \<forall>x \<in> set xs. d \<notin> set x \<Longrightarrow> split_on d (join_on d xs) = xs"
proof (induction d xs rule: join_on.induct)
  case (1 d)
  then show ?case by simp
next
  case (2 d x)
  then show ?case by (simp add: split_on_plain)
next
  case (3 d x y ys)
  then show ?case by (simp add: split_on_append)
qed

subsection \<open>Merging on a null or absent field\<close>

lemma run_links_null:
  "rows \<noteq> [] \<Longrightarrow> j < length Ls \<Longrightarrow> \<forall>i<j. \<exists>e. src (Ls ! i) = Single e \<Longrightarrow>
   src (Ls ! j) = Single (Param f) \<Longrightarrow> ps f = Some VNull \<Longrightarrow>
   \<exists>e. run_links ps Ls rows g = Inl e"
proof (induction Ls arbitrary: rows g j)
  case Nil
  then show ?case by simp
next
  case (Cons L Ls)
  obtain p rows' where rows: "rows = p # rows'" using Cons.prems(1) by (cases rows) auto
  show ?case
  proof (cases j)
    case 0
    then have "source_vals ps (src L) = Inr [VNull]" using Cons.prems(4,5) by simp
    then have "\<exists>e. run_link ps L rows g = Inl e"
      using rows by (simp add: run_link_def UNWIND_def MERGE1_def)
    then show ?thesis by auto
  next
    case (Suc j')
    show ?thesis
    proof (cases "run_link ps L rows g")
      case (Inl e)
      then show ?thesis by simp
    next
      case (Inr r)
      obtain rows1 g1 where r: "r = (rows1, g1)" by (cases r)
      from Cons.prems(3) Suc obtain e0 where e0: "src L = Single e0" by fastforce
      from Inr rows obtain vs where vs: "source_vals ps (src L) = Inr vs"
        by (auto simp add: run_link_def split: sum.splits)
      then have "vs \<noteq> []" using e0 by (auto split: sum.splits)
      from run_link_rows [OF _ vs this] Inr r have "set rows1 = set rows" by simp
      then have ne: "rows1 \<noteq> []" using Cons.prems(1) by auto
      have "\<exists>e. run_links ps Ls rows1 g1 = Inl e"
      proof (rule Cons.IH [OF ne])
        show "j' < length Ls" using Cons.prems(2) Suc by simp
        show "\<forall>i<j'. \<exists>e. src (Ls ! i) = Single e" using Cons.prems(3) Suc by fastforce
        show "src (Ls ! j') = Single (Param f)" using Cons.prems(4) Suc by simp
        show "ps f = Some VNull" using Cons.prems(5) .
      qed
      then show ?thesis using Inr r by simp
    qed
  qed
qed

lemma graph_run_null_single:
  assumes null: "ps f = None \<or> ps f = Some VNull"
    and j: "j < length (links q)" "src (links q ! j) = Single (Param f)"
    and pre: "\<forall>i<j. \<exists>e. src (links q ! i) = Single e"
  shows "\<exists>e. graph_run q ps g = Inl e"
proof (cases "graph_run q ps g")
  case (Inl e)
  then show ?thesis by simp
next
  case (Inr g')
  from Inr obtain u A kvs g1 where
    mp: "missing_params q ps = []"
    and m: "MERGE1 (anchor q) ''url'' False u g = Inr (A, g1)"
    and ls: "run_links ps (links q) A
       ((if hydrate q then REMOVE A ''Placeholder'' else id) (SET A kvs g1)) = Inr g'"
    by (rule graph_run_shape)
  have A: "A \<noteq> []" using MERGE1_find [OF m] by simp
  have "links q ! j \<in> set (links q)" using j(1) by simp
  then have "f \<in> set (query_params q)"
    using j(2) by (force simp add: query_params_def)
  then have "ps f \<noteq> None" using mp by (auto simp add: missing_params_def filter_empty_conv)
  then have "ps f = Some VNull" using null by auto
  from run_links_null [where ps = ps and f = f and Ls = "links q" and j = j and rows = A
      and g = "(if hydrate q then REMOVE A ''Placeholder'' else id) (SET A kvs g1)",
      OF A j(1) pre j(2) this] ls
  show ?thesis by simp
qed

lemma swapi_single_prefix:
  assumes "q \<in> set swapi_queries" "j < length (links q)" "src (links q ! j) = Single e"
  shows "\<forall>i<j. \<exists>e'. src (links q ! i) = Single e'"
  using assms
  by (auto simp add: swapi_queries_def CREATE_MOVIE_QUERY_def CREATE_PERSON_QUERY_def
      CREATE_PLANET_QUERY_def CREATE_SPECIES_QUERY_def CREATE_STARSHIP_QUERY_def
      CREATE_VEHICLE_QUERY_def nth_Cons' less_Suc_eq numeral_eq_Suc split: if_splits)

section \<open>Convergence of the crawl\<close>

subsection \<open>Matches that exist are not touched by later merges\<close>

lemma MERGE1_keep:
  assumes "MERGE1 l k ph v g = Inr (ms, g1)" "l' \<noteq> ''Placeholder''" "v' \<noteq> VNull"
    "find_nodes l' k' v' g \<noteq> []"
  shows "find_nodes l' k' v' g1 = find_nodes l' k' v' g"
  using assms by (auto simp add: MERGE1_def find_nodes_add_node split: if_splits)

lemma MERGE_keep:
  "MERGE l k ph rows g = Inr (out, g2) \<Longrightarrow> l' \<noteq> ''Placeholder'' \<Longrightarrow> v' \<noteq> VNull \<Longrightarrow>
   find_nodes l' k' v' g \<noteq> [] \<Longrightarrow> find_nodes l' k' v' g2 = find_nodes l' k' v' g"
proof (induction rows arbitrary: g out)
  case Nil
  then show ?case by simp
next
  case (Cons row rows)
  obtain p v where row: "row = (p, v)" by (cases row)
  from Cons.prems(1) row obtain ms g1 out' where
    m1: "MERGE1 l k ph v g = Inr (ms, g1)" and m2: "MERGE l k ph rows g1 = Inr (out', g2)"
    by (auto split: sum.splits)
  have "find_nodes l' k' v' g1 = find_nodes l' k' v' g"
    using MERGE1_keep [OF m1 Cons.prems(2,3,4)] .
  with Cons.IH [OF m2 Cons.prems(2,3)] Cons.prems(4) show ?case by simp
qed

lemma run_link_keep:
  assumes "run_link ps L rows g = Inr (rows', g')" "l' \<noteq> ''Placeholder''" "v' \<noteq> VNull"
    "find_nodes l' k' v' g \<noteq> []"
  shows "find_nodes l' k' v' g' = find_nodes l' k' v' g"
proof (cases "rows = []")
  case True
  then show ?thesis using assms(1) by (simp add: run_link_def)
next
  case False
  from assms(1) False obtain vs out g1 where
    m: "MERGE (tlabel L) (tkey L) (stub L) (UNWIND vs rows) g = Inr (out, g1)"
    and g': "g' = CREATE_UNIQUE (rtype L) (map (orient (rdir L)) out) g1"
    by (auto simp add: run_link_def split: sum.splits)
  have "find_nodes l' k' v' g' = find_nodes l' k' v' g1"
    using g' by (intro find_nodes_nodes_cong) simp
  then show ?thesis using MERGE_keep [OF m assms(2,3,4)] by simp
qed

lemma run_links_keep:
  "run_links ps Ls rows g = Inr g' \<Longrightarrow> l' \<noteq> ''Placeholder'' \<Longrightarrow> v' \<noteq> VNull \<Longrightarrow>
   find_nodes l' k' v' g \<noteq> [] \<Longrightarrow> find_nodes l' k' v' g' = find_nodes l' k' v' g"
proof (induction Ls arbitrary: rows g)
  case Nil
  then show ?case by simp
next
  case (Cons L Ls)
  from Cons.prems(1) obtain rows1 g1 where
    l1: "run_link ps L rows g = Inr (rows1, g1)" and l2: "run_links ps Ls rows1 g1 = Inr g'"
    by (auto split: sum.splits)
  have "find_nodes l' k' v' g1 = find_nodes l' k' v' g"
    using run_link_keep [OF l1 Cons.prems(2,3,4)] .
  with Cons.IH [OF l2 Cons.prems(2,3)] Cons.prems(4) show ?case by simp
qed

lemma graph_run_keep:
  assumes wf: "wf_query q" and run: "graph_run q ps g = Inr g'"
    and l': "l' \<noteq> ''Placeholder''" and v': "v' \<noteq> VNull"
    and ex: "find_nodes l' ''url'' v' g \<noteq> []"
  shows "find_nodes l' ''url'' v' g' = find_nodes l' ''url'' v' g"
proof -
  from run obtain u A kvs g1 where
    m: "MERGE1 (anchor q) ''url'' False u g = Inr (A, g1)"
    and kvs: "eval_sets ps (sets q) = Inr kvs"
    and ls: "run_links ps (links q) A
       ((if hydrate q then REMOVE A ''Placeholder'' else id) (SET A kvs g1)) = Inr g'"
    by (rule graph_run_shape)
  define g2 where "g2 = (if hydrate q then REMOVE A ''Placeholder'' else id) (SET A kvs g1)"
  have keys: "map fst kvs = map fst (sets q)" using eval_sets_keys [OF kvs] .
  have nu: "''url'' \<notin> fst ` set kvs"
    using wf keys unfolding wf_query_def by (simp_all del: set_map add: set_map [symmetric])
  have 1: "find_nodes l' ''url'' v' g1 = find_nodes l' ''url'' v' g"
    using MERGE1_keep [OF m l' v' ex] .
  have 2: "find_nodes l' ''url'' v' g2 = find_nodes l' ''url'' v' g1"
    unfolding g2_def using find_nodes_anchor_update [OF nu l'] .
  have "find_nodes l' ''url'' v' g' = find_nodes l' ''url'' v' g2"
    using run_links_keep [OF _ l' v', of ps "links q" A g2 g' "''url''"] ls ex 1 2
    by (simp add: g2_def)
  then show ?thesis using 1 2 by simp
qed

subsection \<open>A complete document is accepted\<close>

lemma MERGE1_ok: "v \<noteq> VNull \<Longrightarrow> \<exists>ms g1. MERGE1 l k ph v g = Inr (ms, g1)"
  by (simp add: MERGE1_def)

lemma MERGE_ok:
  "\<forall>(p, v) \<in> set rows. v \<noteq> VNull \<Longrightarrow> \<exists>out g2. MERGE l k ph rows g = Inr (out, g2)"
proof (induction rows arbitrary: g)
  case Nil
  then show ?case by simp
next
  case (Cons row rows)
  obtain p v where row: "row = (p, v)" by (cases row)
  have "v \<noteq> VNull" using Cons.prems row by simp
  then obtain ms g1 where m1: "MERGE1 l k ph v g = Inr (ms, g1)"
    using MERGE1_ok by blast
  from Cons.IH [of g1] Cons.prems obtain out g2 where "MERGE l k ph rows g1 = Inr (out, g2)"
    by auto
  then show ?case using m1 row by simp
qed

lemma run_link_ok:
  assumes "source_vals ps (src L) = Inr vs" "VNull \<notin> set vs"
  shows "\<exists>rows' g'. run_link ps L rows g = Inr (rows', g')"
proof -
  have "\<forall>(p, v) \<in> set (UNWIND vs rows). v \<noteq> VNull"
    using assms(2) by (auto simp add: set_UNWIND)
  from MERGE_ok [OF this] obtain out g2 where
    "MERGE (tlabel L) (tkey L) (stub L) (UNWIND vs rows) g = Inr (out, g2)" by blast
  then show ?thesis using assms(1) by (simp add: run_link_def)
qed

lemma run_links_ok:
  "\<forall>L \<in> set Ls. \<exists>vs. source_vals ps (src L) = Inr vs \<and> VNull \<notin> set vs \<Longrightarrow>
   \<exists>g'. run_links ps Ls rows g = Inr g'"
proof (induction Ls arbitrary: rows g)
  case Nil
  then show ?case by simp
next
  case (Cons L Ls)
  from Cons.prems obtain vs where "source_vals ps (src L) = Inr vs" "VNull \<notin> set vs" by auto
  from run_link_ok [OF this] obtain rows1 g1 where "run_link ps L rows g = Inr (rows1, g1)"
    by blast
  moreover from Cons.IH [of rows1 g1] Cons.prems obtain g' where
    "run_links ps Ls rows1 g1 = Inr g'" by auto
  ultimately show ?case by simp
qed

lemma graph_run_ok:
  assumes "doc_ok q u ps"
  shows "\<exists>g'. graph_run q ps g = Inr g'"
proof -
  from assms have mp: "missing_params q ps = []" and u: "ps ''url'' = Some (VStr u)"
    by (simp_all add: doc_ok_def)
  from assms obtain kvs where kvs: "eval_sets ps (sets q) = Inr kvs"
    by (cases "eval_sets ps (sets q)") (simp_all add: doc_ok_def)
  have lk: "\<forall>L \<in> set (links q). \<exists>vs. source_vals ps (src L) = Inr vs \<and> VNull \<notin> set vs"
  proof
    fix L assume "L \<in> set (links q)"
    then have "case source_vals ps (src L) of Inl e \<Rightarrow> False | Inr vs \<Rightarrow> VNull \<notin> set vs"
      using assms by (simp add: doc_ok_def)
    then show "\<exists>vs. source_vals ps (src L) = Inr vs \<and> VNull \<notin> set vs"
      by (cases "source_vals ps (src L)") simp_all
  qed
  obtain A g1 where m: "MERGE1 (anchor q) ''url'' False (VStr u) g = Inr (A, g1)"
    using MERGE1_ok [of "VStr u"] by blast
  from run_links_ok [OF lk] obtain g' where
    "run_links ps (links q) A
       ((if hydrate q then REMOVE A ''Placeholder'' else id) (SET A kvs g1)) = Inr g'"
    by blast
  then show ?thesis using mp u kvs m by (simp add: graph_run_def)
qed

lemma graph_run_old_placeholder:
  assumes wf: "wf_query q" and h: "hydrate q" and run: "graph_run q ps g = Inr g'"
    and j: "j < length (nodes g)" and ph: "has_label ''Placeholder'' (nodes g' ! j)"
  shows "nodes g' ! j = nodes g ! j"
proof -
  from run obtain u A kvs g1 where
    m: "MERGE1 (anchor q) ''url'' False u g = Inr (A, g1)"
    and kvs: "eval_sets ps (sets q) = Inr kvs"
    and ls: "run_links ps (links q) A
       ((if hydrate q then REMOVE A ''Placeholder'' else id) (SET A kvs g1)) = Inr g'"
    by (rule graph_run_shape)
  define g2 where "g2 = (if hydrate q then REMOVE A ''Placeholder'' else id) (SET A kvs g1)"
  have keys: "map fst kvs = map fst (sets q)" using eval_sets_keys [OF kvs] .
  have dk: "distinct (map fst kvs)" using wf keys unfolding wf_query_def by simp
  have j1: "j < length (nodes g1)" "nodes g1 ! j = nodes g ! j"
    using MERGE1_old [OF m j] by simp_all
  have n2: "nodes g2 ! j =
      (if j \<in> set A then remove_label ''Placeholder'' (set_props kvs (nodes g1 ! j))
       else nodes g1 ! j)"
    unfolding g2_def
    using anchor_update_nth [where b = "hydrate q" and A = A and l = "''Placeholder''", OF dk j1(1)]
      h by simp
  from run_links_grows [OF ls] obtain ns where "nodes g' = nodes g2 @ ns"
    unfolding g2_def by blast
  then have "nodes g' ! j = nodes g2 ! j" using j1(1) by (simp add: g2_def nth_append)
  moreover have "\<not> has_label ''Placeholder'' (remove_label ''Placeholder'' n)" for n
    by (simp add: has_label_def remove_label_def)
  ultimately show ?thesis using n2 ph j1(2) by (cases "j \<in> set A") simp_all
qed

lemma getQueryForLabel_Inr:
  assumes "getQueryForLabel (Some l) = Inr q"
  shows "q \<in> set swapi_queries \<and> anchor q = l \<and> hydrate q \<and> l \<noteq> ''Placeholder'' \<and>
         (\<forall>L \<in> set (links q). stub L \<longrightarrow> tkey L = ''url'')"
  using assms
  by (auto simp add: getQueryForLabel_def swapi_queries_def copy_def
      CREATE_PERSON_QUERY_def CREATE_PLANET_QUERY_def CREATE_SPECIES_QUERY_def
      CREATE_STARSHIP_QUERY_def CREATE_VEHICLE_QUERY_def split: if_splits)

lemma FIND_NEW_ENTITY_QUERY_None:
  "FIND_NEW_ENTITY_QUERY r g = None \<longleftrightarrow> placeholders g = []"
  by (auto simp add: FIND_NEW_ENTITY_QUERY_def Let_def split: list.splits)

lemma source_okD:
  assumes "source_ok api K" "(l, u) \<in> set K"
  obtains q ps where "getQueryForLabel (Some l) = Inr q" "http_get api (VStr u) = Inr ps"
    "doc_ok q u ps" "refs_in K q ps"
proof -
  from assms have c: "case getQueryForLabel (Some l) of Inl e \<Rightarrow> False
     | Inr q \<Rightarrow> (case http_get api (VStr u) of Inl e \<Rightarrow> False
         | Inr ps \<Rightarrow> doc_ok q u ps \<and> refs_in K q ps)"
    unfolding source_ok_def by blast
  then obtain q where q: "getQueryForLabel (Some l) = Inr q"
    by (cases "getQueryForLabel (Some l)") simp_all
  with c obtain ps where "http_get api (VStr u) = Inr ps" "doc_ok q u ps" "refs_in K q ps"
    by (cases "http_get api (VStr u)") simp_all
  with q that show ?thesis by blast
qed

lemma refs_inD:
  assumes "refs_in K q ps" "L \<in> set (links q)" "stub L"
    "source_vals ps (src L) = Inr vs" "v \<in> set vs"
  obtains u where "v = VStr u" "(tlabel L, u) \<in> set K"
proof -
  from assms(1,2,3) have "case source_vals ps (src L) of Inl e \<Rightarrow> False
     | Inr vs \<Rightarrow> \<forall>v \<in> set vs. (case v of VStr u \<Rightarrow> (tlabel L, u) \<in> set K | _ \<Rightarrow> False)"
    unfolding refs_in_def by blast
  then have "case v of VStr u \<Rightarrow> (tlabel L, u) \<in> set K | _ \<Rightarrow> False"
    using assms(4,5) by simp
  then show ?thesis using that by (cases v) simp_all
qed

lemma crawl_step:
  assumes src: "source_ok api K" and fr: "frontier_ok K g"
    and sel: "FIND_NEW_ENTITY_QUERY r g = Some (url, label)"
  shows "\<exists>l u q ps g1. url = VStr u \<and> label = Some l \<and> (l, u) \<in> set K \<and>
           http_get api (VStr u) = Inr ps \<and>
           getQueryForLabel (Some l) = Inr q \<and> graph_run q ps g = Inr g1 \<and>
           frontier_ok K g1 \<and> \<not> key_done g (l, u) \<and> key_done g1 (l, u) \<and>
           (\<forall>k \<in> set K. key_done g k \<longrightarrow> key_done g1 k)"
proof -
  from FIND_NEW_ENTITY_QUERY_Some [OF sel] obtain i where
    i: "i \<in> set (placeholders g)" "url = prop_of ''url'' (nodes g ! i)"
       "label = type_of (nodes g ! i)"
    by blast
  have il: "i < length (nodes g)" and iph: "has_label ''Placeholder'' (nodes g ! i)"
    using i(1) by (simp_all add: placeholders_iff)
  then have "nodes g ! i \<in> set (nodes g)" by simp
  with fr iph obtain l u where
    lu: "(l, u) \<in> set K" "type_of (nodes g ! i) = Some l" "prop_of ''url'' (nodes g ! i) = VStr u"
    unfolding frontier_ok_def by blast
  from source_okD [OF src lu(1)] obtain q ps where
    q: "getQueryForLabel (Some l) = Inr q" and api: "http_get api (VStr u) = Inr ps"
    and doc: "doc_ok q u ps" and refs: "refs_in K q ps"
    by blast
  from graph_run_ok [OF doc] obtain g1 where run: "graph_run q ps g = Inr g1" by blast
  have qf: "q \<in> set swapi_queries" "anchor q = l" "hydrate q" "l \<noteq> ''Placeholder''"
    "\<forall>L \<in> set (links q). stub L \<longrightarrow> tkey L = ''url''"
    using getQueryForLabel_Inr [OF q] by simp_all
  have wf: "wf_query q" using qf(1) by (rule wf_swapi_queries)
  have u: "ps ''url'' = Some (VStr u)" using doc by (simp add: doc_ok_def)
  have g1: "store_after q ps g = g1" using run by (simp add: store_after_def)
  \<comment> \<open>the selected key is done afterwards, and was not before\<close>
  have done1: "key_done g1 (l, u)"
    using graph_run_anchor(1,3) [OF wf run u] qf(2,3) by (simp add: key_done_def)
  have "i \<in> set (find_nodes l ''url'' (VStr u) g)"
    using il lu(2,3) type_of_label [of "nodes g ! i" l]
    by (simp add: find_nodes_matches matches_def)
  moreover have "\<not> hydrated g i" using iph by (simp add: hydrated_def)
  ultimately have notdone: "\<not> key_done g (l, u)" by (auto simp add: key_done_def)
  \<comment> \<open>keys that were done stay done\<close>
  have keep: "key_done g1 k" if k: "k \<in> set K" "key_done g k" for k
  proof -
    obtain l' u' where k': "k = (l', u')" by (cases k)
    from source_okD [OF src] k(1) k' obtain q' where "getQueryForLabel (Some l') = Inr q'"
      by blast
    then have l': "l' \<noteq> ''Placeholder''" using getQueryForLabel_Inr by blast
    have ex: "find_nodes l' ''url'' (VStr u') g \<noteq> []" using k(2) k' by (simp add: key_done_def)
    have same: "find_nodes l' ''url'' (VStr u') g1 = find_nodes l' ''url'' (VStr u') g"
      using graph_run_keep [OF wf run l' _ ex] by simp
    have "hydrated g1 a" if "a \<in> set (find_nodes l' ''url'' (VStr u') g)" for a
      using store_after_hydrated [of g a q ps] that k(2) k' g1 by (simp add: key_done_def)
    then show ?thesis using same ex k' by (simp add: key_done_def)
  qed
  \<comment> \<open>the unhydrated nodes are still keys of K\<close>
  have fr1: "frontier_ok K g1"
    unfolding frontier_ok_def
  proof (intro ballI impI)
    fix n assume n: "n \<in> set (nodes g1)" "has_label ''Placeholder'' n"
    then obtain j where j: "j < length (nodes g1)" "nodes g1 ! j = n"
      by (auto simp add: in_set_conv_nth)
    show "\<exists>(l, u) \<in> set K. type_of n = Some l \<and> prop_of ''url'' n = VStr u"
    proof (cases "j < length (nodes g)")
      case True
      have "nodes g1 ! j = nodes g ! j"
        using graph_run_old_placeholder [OF wf qf(3) run True] n(2) j(2) by simp
      then have "n \<in> set (nodes g)" using True j(2) by (metis nth_mem)
      then show ?thesis using fr n(2) unfolding frontier_ok_def by blast
    next
      case False
      then have "n \<in> set (created g g1)" using created_nth [of g j g1] j by simp
      with graph_run_created [OF run]
      consider "set (labels n) \<subseteq> {anchor q}" | L where "L \<in> set (links q)" "link_node ps L n"
        by blast
      then show ?thesis
      proof cases
        case 1
        then show ?thesis using n(2) qf(2,4) by (auto simp add: has_label_def)
      next
        case 2
        from 2(2) obtain vs v where
          v: "source_vals ps (src L) = Inr vs" "v \<in> set vs"
             "n = fresh_node (tlabel L) (tkey L) v (stub L)"
          unfolding link_node_def by blast
        have "tlabel L \<in> set (map tlabel (links q))" using 2(1) by simp
        moreover have "''Placeholder'' \<notin> set (map tlabel (links q))"
          using wf by (simp add: wf_query_def)
        ultimately have tl: "tlabel L \<noteq> ''Placeholder''" by metis
        then have st: "stub L" using n(2) v(3) by simp
        then have tk: "tkey L = ''url''" using qf(5) 2(1) by blast
        from refs_inD [OF refs 2(1) st v(1,2)] obtain u' where
          u': "v = VStr u'" "(tlabel L, u') \<in> set K" by blast
        have "type_of n = Some (tlabel L)" "prop_of ''url'' n = VStr u'"
          using v(3) tl st tk u'(1) by (simp_all add: type_of_def fresh_node_def prop_of_def)
        then show ?thesis using u'(2) by blast
      qed
    qed
  qed
  have "\<forall>k \<in> set K. key_done g k \<longrightarrow> key_done g1 k" using keep by blast
  then show ?thesis using i(2,3) lu api q run fr1 notdone done1 by blast
qed

lemma crawl_step_less:
  assumes "(l, u) \<in> set K" "\<not> key_done g (l, u)" "key_done g1 (l, u)"
    "\<forall>k \<in> set K. key_done g k \<longrightarrow> key_done g1 k"
  shows "card {k \<in> set K. \<not> key_done g1 k} < card {k \<in> set K. \<not> key_done g k}"
proof -
  have "{k \<in> set K. \<not> key_done g1 k} \<subseteq> {k \<in> set K. \<not> key_done g k}"
    using assms(4) by blast
  moreover have "(l, u) \<in> {k \<in> set K. \<not> key_done g k}" "(l, u) \<notin> {k \<in> set K. \<not> key_done g1 k}"
    using assms(1,2,3) by simp_all
  ultimately have "{k \<in> set K. \<not> key_done g1 k} \<subset> {k \<in> set K. \<not> key_done g k}"
    by blast
  then show ?thesis by (intro psubset_card_mono) simp_all
qed

lemma crawl_Done:
  "FIND_NEW_ENTITY_QUERY (rnd 0) g = None \<Longrightarrow> crawl api rnd n g = Some (Done g)"
  by (subst crawl.simps) simp

text \<open>
  The loop reaches \<open>Done\<close> within as many cycles as there are keys not yet done, and
  a property of the store that every successful upsert of a key keeps holds at \<open>Done\<close>.
\<close>

lemma crawl_invariant:
  assumes src: "source_ok api K"
    and inv: "\<And>g l u q ps g1. I g \<Longrightarrow> (l, u) \<in> set K \<Longrightarrow> getQueryForLabel (Some l) = Inr q \<Longrightarrow>
       http_get api (VStr u) = Inr ps \<Longrightarrow> graph_run q ps g = Inr g1 \<Longrightarrow> I g1"
  shows "frontier_ok K g \<Longrightarrow> I g \<Longrightarrow> card {k \<in> set K. \<not> key_done g k} \<le> n \<Longrightarrow>
         \<exists>g'. crawl api rnd n g = Some (Done g') \<and> placeholders g' = [] \<and> I g'"
proof (induction n arbitrary: g rnd)
  case 0
  show ?case
  proof (cases "FIND_NEW_ENTITY_QUERY (rnd 0) g")
    case None
    then show ?thesis
      using crawl_Done [of rnd g api] FIND_NEW_ENTITY_QUERY_None [of "rnd 0" g] "0.prems"(2)
      by simp
  next
    case (Some r)
    obtain url label where r: "r = (url, label)" by (cases r)
    from crawl_step [OF src "0.prems"(1)] Some r obtain l u g1 where
      "(l, u) \<in> set K" "\<not> key_done g (l, u)" "key_done g1 (l, u)"
      "\<forall>k \<in> set K. key_done g k \<longrightarrow> key_done g1 k"
      by blast
    from crawl_step_less [OF this] "0.prems"(3) show ?thesis by simp
  qed
next
  case (Suc n)
  show ?case
  proof (cases "FIND_NEW_ENTITY_QUERY (rnd 0) g")
    case None
    then show ?thesis
      using crawl_Done [of rnd g api] FIND_NEW_ENTITY_QUERY_None [of "rnd 0" g] Suc.prems(2)
      by simp
  next
    case (Some r)
    obtain url label where r: "r = (url, label)" by (cases r)
    from crawl_step [OF src Suc.prems(1)] Some r obtain l u q ps g1 where
      s: "url = VStr u" "label = Some l" "http_get api (VStr u) = Inr ps"
         "getQueryForLabel (Some l) = Inr q"
         "graph_run q ps g = Inr g1" "frontier_ok K g1"
      and d: "(l, u) \<in> set K" "\<not> key_done g (l, u)" "key_done g1 (l, u)"
         "\<forall>k \<in> set K. key_done g k \<longrightarrow> key_done g1 k"
      by blast
    have "card {k \<in> set K. \<not> key_done g1 k} < card {k \<in> set K. \<not> key_done g k}"
      using crawl_step_less [OF d] .
    then have c: "card {k \<in> set K. \<not> key_done g1 k} \<le> n" using Suc.prems(3) by simp
    have i1: "I g1" using inv [OF Suc.prems(2) d(1) s(4,3,5)] .
    from Suc.IH [OF s(6) i1 c, of "\<lambda>i. rnd (Suc i)"] obtain g' where
      "crawl api (\<lambda>i. rnd (Suc i)) n g1 = Some (Done g')" "placeholders g' = []" "I g'" by blast
    moreover have "crawl api rnd (Suc n) g = crawl api (\<lambda>i. rnd (Suc i)) n g1"
      using Some r s(1-5) by (subst crawl.simps) simp
    ultimately show ?thesis by simp
  qed
qed

subsection \<open>The seed loop keeps the unhydrated entities inside the key set\<close>

lemma type_of_labels: "labels n = labels m \<Longrightarrow> type_of n = type_of m"
  by (simp add: type_of_def)

lemma graph_run_frontier:
  assumes wf: "wf_query q" and run: "graph_run q ps g = Inr g'"
    and refs: "refs_in K q ps" and tk: "\<forall>L \<in> set (links q). stub L \<longrightarrow> tkey L = ''url''"
    and fr: "frontier_ok K g"
  shows "frontier_ok K g'"
  unfolding frontier_ok_def
proof (intro ballI impI)
  fix n assume n: "n \<in> set (nodes g')" "has_label ''Placeholder'' n"
  let ?F = "\<lambda>n. \<exists>(l, u) \<in> set K. type_of n = Some l \<and> prop_of ''url'' n = VStr u"
  from n(1) obtain j where j: "j < length (nodes g')" "nodes g' ! j = n"
    by (auto simp add: in_set_conv_nth)
  from run obtain u A kvs g1 where
    m: "MERGE1 (anchor q) ''url'' False u g = Inr (A, g1)"
    and kvs: "eval_sets ps (sets q) = Inr kvs"
    and ls: "run_links ps (links q) A
       ((if hydrate q then REMOVE A ''Placeholder'' else id) (SET A kvs g1)) = Inr g'"
    by (rule graph_run_shape)
  define g2 where "g2 = (if hydrate q then REMOVE A ''Placeholder'' else id) (SET A kvs g1)"
  have keys: "map fst kvs = map fst (sets q)" using eval_sets_keys [OF kvs] .
  have dk: "distinct (map fst kvs)" and nu: "''url'' \<notin> fst ` set kvs"
    using wf keys unfolding wf_query_def by (simp_all del: set_map add: set_map [symmetric])
  have ap: "anchor q \<noteq> ''Placeholder''" using wf by (auto simp add: wf_query_def)
  show "?F n"
  proof (cases "j < length (nodes g)")
    case True
    have j1: "j < length (nodes g1)" "nodes g1 ! j = nodes g ! j"
      using MERGE1_old [OF m True] by simp_all
    have n2: "nodes g2 ! j =
        (if j \<in> set A
         then (if hydrate q then remove_label ''Placeholder'' else id) (set_props kvs (nodes g ! j))
         else nodes g ! j)"
      unfolding g2_def
      using anchor_update_nth [where b = "hydrate q" and A = A and l = "''Placeholder''", OF dk j1(1)]
        j1(2) by simp
    from run_links_grows [OF ls] obtain ns where "nodes g' = nodes g2 @ ns"
      unfolding g2_def by blast
    then have n': "n = nodes g2 ! j" using j1(1) j(2) by (simp add: g2_def nth_append)
    have old: "nodes g ! j \<in> set (nodes g)" using True by simp
    show ?thesis
    proof (cases "j \<in> set A")
      case False
      then have "n = nodes g ! j" using n' n2 by simp
      then show ?thesis using fr n(2) old unfolding frontier_ok_def by metis
    next
      case inA: True
      show ?thesis
      proof (cases "hydrate q")
        case True
        then have "n = remove_label ''Placeholder'' (set_props kvs (nodes g ! j))"
          using n' n2 inA by simp
        then show ?thesis using n(2) by (simp add: has_label_def remove_label_def)
      next
        case False
        then have e: "n = set_props kvs (nodes g ! j)" using n' n2 inA by simp
        then have "has_label ''Placeholder'' (nodes g ! j)" using n(2) by (simp add: has_label_def)
        then have "?F (nodes g ! j)" using fr old unfolding frontier_ok_def by blast
        moreover have "type_of n = type_of (nodes g ! j)"
          using e by (intro type_of_labels) simp
        moreover have "prop_of ''url'' n = prop_of ''url'' (nodes g ! j)"
          using e set_props_prop_other [OF nu] by simp
        ultimately show ?thesis by simp
      qed
    qed
  next
    case False
    then have "n \<in> set (created g g')" using created_nth [of g j g'] j by simp
    with graph_run_created [OF run]
    consider "set (labels n) \<subseteq> {anchor q}" | L where "L \<in> set (links q)" "link_node ps L n"
      by blast
    then show ?thesis
    proof cases
      case 1
      then show ?thesis using n(2) ap by (auto simp add: has_label_def)
    next
      case 2
      from 2(2) obtain vs v where
        v: "source_vals ps (src L) = Inr vs" "v \<in> set vs"
           "n = fresh_node (tlabel L) (tkey L) v (stub L)"
        unfolding link_node_def by blast
      have "tlabel L \<in> set (map tlabel (links q))" using 2(1) by simp
      moreover have "''Placeholder'' \<notin> set (map tlabel (links q))"
        using wf by (simp add: wf_query_def)
      ultimately have tl: "tlabel L \<noteq> ''Placeholder''" by metis
      then have st: "stub L" using n(2) v(3) by simp
      then have tkey: "tkey L = ''url''" using tk 2(1) by blast
      from refs_inD [OF refs 2(1) st v(1,2)] obtain u' where
        u': "v = VStr u'" "(tlabel L, u') \<in> set K" by blast
      have "type_of n = Some (tlabel L)" "prop_of ''url'' n = VStr u'"
        using v(3) tl st tkey u'(1) by (simp_all add: type_of_def fresh_node_def prop_of_def)
      then show ?thesis using u'(2) by blast
    qed
  qed
qed

lemma movie_query_facts:
  "wf_query CREATE_MOVIE_QUERY"
  "\<forall>L \<in> set (links CREATE_MOVIE_QUERY). stub L \<longrightarrow> tkey L = ''url''"
  by (simp_all add: wf_query_def CREATE_MOVIE_QUERY_def)

lemma seed_frontier:
  "seed api urls g = Done g' \<Longrightarrow>
   \<forall>url \<in> set urls. \<forall>ps. http_get api (VStr url) = Inr ps \<longrightarrow> refs_in K CREATE_MOVIE_QUERY ps \<Longrightarrow>
   frontier_ok K g \<Longrightarrow> frontier_ok K g'"
proof (induction urls arbitrary: g)
  case Nil
  then show ?case by simp
next
  case (Cons url urls)
  from Cons.prems(1) obtain ps g1 where
    a: "http_get api (VStr url) = Inr ps" and r: "graph_run CREATE_MOVIE_QUERY ps g = Inr g1"
    and s: "seed api urls g1 = Done g'"
    by (auto split: sum.splits)
  have "refs_in K CREATE_MOVIE_QUERY ps" using Cons.prems(2) a by simp
  then have "frontier_ok K g1"
    using graph_run_frontier [OF movie_query_facts(1) r _ movie_query_facts(2) Cons.prems(3)]
    by simp
  then show ?case using Cons.IH [OF s] Cons.prems(2) by simp
qed

lemma frontier_ok_empty: "frontier_ok K empty_graph"
  by (simp add: frontier_ok_def empty_graph_def)

lemma seeded_crawl_converges:
  assumes "source_ok api K"
    and "\<forall>url \<in> set film_urls. \<forall>ps. http_get api (VStr url) = Inr ps \<longrightarrow> refs_in K CREATE_MOVIE_QUERY ps"
    and "seed api film_urls empty_graph = Done g"
  shows "\<exists>g'. crawl api rnd (card (set K)) g = Some (Done g') \<and> placeholders g' = []"
proof -
  have fr: "frontier_ok K g" using seed_frontier [OF assms(3,2) frontier_ok_empty] .
  have c: "card {k \<in> set K. \<not> key_done g k} \<le> card (set K)"
    by (intro card_mono) auto
  from crawl_invariant [where I = "\<lambda>h. True" and rnd = rnd, OF assms(1) _ fr _ c]
  show ?thesis by simp
qed

section \<open>What the crawl reaches\<close>

subsection \<open>The references of a document after its upsert\<close>

lemma refs_iff:
  "k' \<in> set (refs q ps) \<longleftrightarrow>
     (\<exists>L \<in> set (links q). stub L \<and> fst k' = tlabel L \<and>
        (\<exists>vs. source_vals ps (src L) = Inr vs \<and> VStr (snd k') \<in> set vs))"
proof -
  define G where "G = (\<lambda>L. case source_vals ps (src L) of
       Inl e \<Rightarrow> []
     | Inr vs \<Rightarrow> concat (map (\<lambda>v. case v of VStr u \<Rightarrow> [(tlabel L, u)] | _ \<Rightarrow> []) vs))"
  have r: "refs q ps = concat (map G (filter stub (links q)))"
    by (simp add: refs_def G_def)
  have v: "k' \<in> set (case v of VStr u \<Rightarrow> [(l, u)] | _ \<Rightarrow> []) \<longleftrightarrow> fst k' = l \<and> v = VStr (snd k')"
    for v l
    by (cases v; cases k') auto
  have L: "k' \<in> set (G L) \<longleftrightarrow>
     fst k' = tlabel L \<and> (\<exists>vs. source_vals ps (src L) = Inr vs \<and> VStr (snd k') \<in> set vs)"
    for L
    unfolding G_def by (cases "source_vals ps (src L)"; cases k') (force simp add: v)+
  have "k' \<in> set (refs q ps) \<longleftrightarrow> (\<exists>L \<in> set (links q). stub L \<and> k' \<in> set (G L))"
    unfolding r by auto
  then show ?thesis unfolding L by blast
qed

lemma graph_run_old_other:
  assumes wf: "wf_query q" and run: "graph_run q ps g = Inr g'" and u: "ps ''url'' = Some u"
    and j: "j < length (nodes g)" "j \<notin> set (find_nodes (anchor q) ''url'' u g)"
  shows "nodes g' ! j = nodes g ! j"
proof -
  from run obtain u' A kvs g1 where
    u': "ps ''url'' = Some u'"
    and m: "MERGE1 (anchor q) ''url'' False u' g = Inr (A, g1)"
    and kvs: "eval_sets ps (sets q) = Inr kvs"
    and ls: "run_links ps (links q) A
       ((if hydrate q then REMOVE A ''Placeholder'' else id) (SET A kvs g1)) = Inr g'"
    by (rule graph_run_shape)
  have uu: "u' = u" using u u' by simp
  define g2 where "g2 = (if hydrate q then REMOVE A ''Placeholder'' else id) (SET A kvs g1)"
  have keys: "map fst kvs = map fst (sets q)" using eval_sets_keys [OF kvs] .
  have dk: "distinct (map fst kvs)" using wf keys unfolding wf_query_def by simp
  have j1: "j < length (nodes g1)" "nodes g1 ! j = nodes g ! j"
    using MERGE1_old [OF m j(1)] by simp_all
  have jA: "j \<notin> set A" using m j uu by (auto simp add: MERGE1_def split: if_splits)
  have n2: "nodes g2 ! j = nodes g1 ! j"
    unfolding g2_def
    using anchor_update_nth [where b = "hydrate q" and A = A and l = "''Placeholder''", OF dk j1(1)]
      jA by simp
  from run_links_grows [OF ls] obtain ns where "nodes g' = nodes g2 @ ns"
    unfolding g2_def by blast
  then have "nodes g' ! j = nodes g2 ! j" using j1(1) by (simp add: g2_def nth_append)
  then show ?thesis using n2 j1(2) by simp
qed

lemma graph_run_new_match:
  assumes wf: "wf_query q" and run: "graph_run q ps g = Inr g'" and u: "ps ''url'' = Some u"
    and l: "l \<noteq> ''Placeholder''" and ne: "(l, v) \<noteq> (anchor q, u)"
    and a: "a \<in> set (find_nodes l ''url'' v g')" "a \<notin> set (find_nodes l ''url'' v g)"
  shows "\<exists>L \<in> set (links q). link_node ps L (nodes g' ! a)"
proof -
  from run obtain u' A kvs g1 where
    u': "ps ''url'' = Some u'"
    and m: "MERGE1 (anchor q) ''url'' False u' g = Inr (A, g1)"
    and kvs: "eval_sets ps (sets q) = Inr kvs"
    and ls: "run_links ps (links q) A
       ((if hydrate q then REMOVE A ''Placeholder'' else id) (SET A kvs g1)) = Inr g'"
    by (rule graph_run_shape)
  have uu: "u' = u" using u u' by simp
  define g2 where "g2 = (if hydrate q then REMOVE A ''Placeholder'' else id) (SET A kvs g1)"
  have keys: "map fst kvs = map fst (sets q)" using eval_sets_keys [OF kvs] .
  have nu: "''url'' \<notin> fst ` set kvs"
    using wf keys unfolding wf_query_def by (simp_all del: set_map add: set_map [symmetric])
  have 1: "find_nodes l ''url'' v g1 = find_nodes l ''url'' v g"
    using m ne uu by (auto simp add: MERGE1_def find_nodes_add_node split: if_splits)
  have 2: "find_nodes l ''url'' v g2 = find_nodes l ''url'' v g1"
    unfolding g2_def using find_nodes_anchor_update [OF nu l] .
  from run_links_grows [OF ls] obtain ns where
    gr: "nodes g' = nodes g2 @ ns" "\<forall>n \<in> set ns. \<exists>L \<in> set (links q). link_node ps L n"
    unfolding g2_def by blast
  have a': "a < length (nodes g')" "matches l ''url'' v (nodes g' ! a)"
    using a(1) by (simp_all add: find_nodes_matches)
  have "\<not> a < length (nodes g2)"
  proof
    assume lt: "a < length (nodes g2)"
    then have "nodes g' ! a = nodes g2 ! a" using gr(1) by (simp add: nth_append)
    then have "a \<in> set (find_nodes l ''url'' v g2)" using a'(2) lt by (simp add: find_nodes_matches)
    then show False using 1 2 a(2) by simp
  qed
  then have "nodes g' ! a \<in> set ns" using gr(1) a'(1) by (simp add: nth_append)
  then show ?thesis using gr(2) by blast
qed

lemma graph_run_one_kind:
  assumes wf: "wf_query q" and run: "graph_run q ps g = Inr g'" and one: "one_kind g"
  shows "one_kind g'"
  unfolding one_kind_def
proof
  fix n assume "n \<in> set (nodes g')"
  then obtain j where j: "j < length (nodes g')" "nodes g' ! j = n"
    by (auto simp add: in_set_conv_nth)
  let ?Q = "\<lambda>n. \<forall>l \<in> set (labels n). \<forall>l' \<in> set (labels n).
      l \<noteq> ''Placeholder'' \<longrightarrow> l' \<noteq> ''Placeholder'' \<longrightarrow> l = l'"
  show "?Q n"
  proof (cases "j < length (nodes g)")
    case True
    then have "nodes g ! j \<in> set (nodes g)" by simp
    then have "?Q (nodes g ! j)" using one unfolding one_kind_def by blast
    then have "j < length (nodes g') \<and> ?Q (nodes g' ! j)"
      using True
      by (intro graph_run_old_inv [OF run, where Q = ?Q])
         (simp_all add: set_prop_def remove_label_def)
    then show ?thesis using j(2) by simp
  next
    case False
    then have "n \<in> set (created g g')" using created_nth [of g j g'] j by simp
    with graph_run_created [OF run]
    consider "set (labels n) \<subseteq> {anchor q}" | L where "L \<in> set (links q)" "link_node ps L n"
      by blast
    then show ?thesis
    proof cases
      case 1
      then show ?thesis by auto
    next
      case 2
      from 2(2) obtain v where "n = fresh_node (tlabel L) (tkey L) v (stub L)"
        unfolding link_node_def by blast
      then show ?thesis by (auto simp add: fresh_node_def)
    qed
  qed
qed

lemma graph_run_has_node:
  assumes "wf_query q" "graph_run q ps g = Inr g'" "fst k \<noteq> ''Placeholder''" "has_node g k"
  shows "has_node g' k"
  using graph_run_keep [OF assms(1,2,3), of "VStr (snd k)"] assms(4) by (simp add: has_node_def)

lemma graph_run_refs:
  assumes wf: "wf_query q" and run: "graph_run q ps g = Inr g'"
    and doc: "doc_ok q u ps" and lists: "lists_ok q ps"
    and tk: "\<forall>L \<in> set (links q). stub L \<longrightarrow> tkey L = ''url''"
    and k': "k' \<in> set (refs q ps)"
  shows "has_node g' k'"
proof -
  from k' obtain L vs where
    L: "L \<in> set (links q)" "stub L" "fst k' = tlabel L"
    and vs: "source_vals ps (src L) = Inr vs" "VStr (snd k') \<in> set vs"
    unfolding refs_iff by blast
  from L(1) obtain j where j: "j < length (links q)" "links q ! j = L"
    by (auto simp add: in_set_conv_nth)
  have u: "ps ''url'' = Some (VStr u)" using doc by (simp add: doc_ok_def)
  have bf: "\<forall>i<j. \<exists>ws. source_vals ps (src (links q ! i)) = Inr ws \<and> ws \<noteq> []"
  proof (intro allI impI)
    fix i assume i: "i < j"
    then have "links q ! i \<in> set (links q)" using j(1) by simp
    then have "case source_vals ps (src (links q ! i)) of Inl e \<Rightarrow> False | Inr vs \<Rightarrow> VNull \<notin> set vs"
      using doc unfolding doc_ok_def by blast
    then obtain ws where ws: "source_vals ps (src (links q ! i)) = Inr ws"
      by (cases "source_vals ps (src (links q ! i))") simp_all
    have "ws \<noteq> []"
    proof
      assume "ws = []"
      then have "source_vals ps (src (links q ! j)) = Inr []"
        using lists j(1) i ws unfolding lists_ok_def by blast
      then show False using vs j(2) by simp
    qed
    then show "\<exists>ws. source_vals ps (src (links q ! i)) = Inr ws \<and> ws \<noteq> []" using ws by blast
  qed
  from graph_run_anchor(4) [OF wf run u] obtain rows g2 where
    rows: "set rows = set (find_nodes (anchor q) ''url'' (VStr u) g')"
    and ls: "run_links ps (links q) rows g2 = Inr g'"
    by blast
  have "find_nodes (anchor q) ''url'' (VStr u) g' \<noteq> []" using graph_run_anchor(1) [OF wf run u] .
  then obtain p where p: "p \<in> set rows" using rows by (cases "find_nodes (anchor q) ''url'' (VStr u) g'") auto
  have vs': "source_vals ps (src (links q ! j)) = Inr vs" using vs(1) j(2) by simp
  from run_links_post [OF ls j(1) bf vs' p vs(2)] obtain m where
    "m \<in> set (find_nodes (tlabel (links q ! j)) (tkey (links q ! j)) (VStr (snd k')) g')"
    by blast
  moreover have "tkey L = ''url''" using tk L(1,2) by blast
  ultimately show ?thesis using j(2) L(3) by (auto simp add: has_node_def)
qed

lemma getQueryForLabel_url_stub:
  assumes "getQueryForLabel (Some l) = Inr q" "L \<in> set (links q)" "tkey L = ''url''"
  shows "stub L"
  using assms
  by (auto simp add: getQueryForLabel_def CREATE_PERSON_QUERY_def CREATE_PLANET_QUERY_def
      CREATE_SPECIES_QUERY_def CREATE_STARSHIP_QUERY_def CREATE_VEHICLE_QUERY_def split: if_splits)

lemma key_label:
  assumes "source_ok api K" "k \<in> set K"
  shows "fst k \<noteq> ''Placeholder''"
proof -
  obtain l u where k: "k = (l, u)" by (cases k)
  from source_okD [OF assms(1)] assms(2) k obtain q where "getQueryForLabel (Some l) = Inr q"
    by blast
  then show ?thesis using getQueryForLabel_Inr k by auto
qed

lemma doc_refs_in:
  assumes "source_ok api K" "k \<in> set K" "k' \<in> set (doc_refs api k)"
  shows "k' \<in> set K"
proof -
  obtain l u where k: "k = (l, u)" by (cases k)
  from source_okD [OF assms(1)] assms(2) k obtain q ps where
    q: "getQueryForLabel (Some l) = Inr q" "http_get api (VStr u) = Inr ps" "refs_in K q ps"
    by blast
  then have "k' \<in> set (refs q ps)" using assms(3) k by (simp add: doc_refs_def)
  then obtain L vs where
    L: "L \<in> set (links q)" "stub L" "fst k' = tlabel L"
    and vs: "source_vals ps (src L) = Inr vs" "VStr (snd k') \<in> set vs"
    unfolding refs_iff by blast
  from refs_inD [OF q(3) L(1,2) vs] obtain u' where "VStr (snd k') = VStr u'" "(tlabel L, u') \<in> set K"
    by blast
  then show ?thesis using L(3) by (cases k') auto
qed

lemma no_placeholders_done:
  assumes "placeholders g = []" "has_node g k"
  shows "key_done g k"
proof -
  have "hydrated g a" if "a \<in> set (find_nodes (fst k) ''url'' (VStr (snd k)) g)" for a
  proof -
    have a: "a < length (nodes g)" using that find_nodes_bound by blast
    have "a \<notin> set (placeholders g)" using assms(1) by simp
    then show ?thesis using a by (simp add: placeholders_iff hydrated_def)
  qed
  then show ?thesis using assms(2) by (simp add: key_done_def has_node_def)
qed

lemma upsert_linked:
  assumes src: "source_ok api K" and lists: "source_lists_ok api K"
    and k: "(l, u) \<in> set K" and q: "getQueryForLabel (Some l) = Inr q"
    and ps: "http_get api (VStr u) = Inr ps" and run: "graph_run q ps g = Inr g1"
    and one: "one_kind g" and ln: "linked api K g"
  shows "linked api K g1"
  unfolding linked_def
proof (intro ballI impI)
  fix k2 k3
  assume k2: "k2 \<in> set K" and d2: "key_done g1 k2" and k3: "k3 \<in> set (doc_refs api k2)"
  from source_okD [OF src k] q ps have doc: "doc_ok q u ps" and refs: "refs_in K q ps"
    by auto
  have qf: "q \<in> set swapi_queries" "anchor q = l" "hydrate q" "l \<noteq> ''Placeholder''"
    "\<forall>L \<in> set (links q). stub L \<longrightarrow> tkey L = ''url''"
    using getQueryForLabel_Inr [OF q] by simp_all
  have wf: "wf_query q" using qf(1) by (rule wf_swapi_queries)
  have u: "ps ''url'' = Some (VStr u)" using doc by (simp add: doc_ok_def)
  have lo: "lists_ok q ps"
    using lists k q ps unfolding source_lists_ok_def by fastforce
  show "has_node g1 k3"
  proof (cases "k2 = (l, u)")
    case True
    then have "k3 \<in> set (refs q ps)" using k3 q ps by (simp add: doc_refs_def)
    then show ?thesis using graph_run_refs [OF wf run doc lo qf(5)] by blast
  next
    case False
    obtain l2 u2 where k2': "k2 = (l2, u2)" by (cases k2)
    have l2: "l2 \<noteq> ''Placeholder''" using key_label [OF src k2] k2' by simp
    have ne: "(l2, VStr u2) \<noteq> (anchor q, VStr u)" using False k2' qf(2) by simp
    have ex1: "find_nodes l2 ''url'' (VStr u2) g1 \<noteq> []"
      and hy1: "\<forall>a \<in> set (find_nodes l2 ''url'' (VStr u2) g1). hydrated g1 a"
      using d2 k2' by (simp_all add: key_done_def)
    have ex: "find_nodes l2 ''url'' (VStr u2) g \<noteq> []"
    proof
      assume emp: "find_nodes l2 ''url'' (VStr u2) g = []"
      from ex1 obtain a where a: "a \<in> set (find_nodes l2 ''url'' (VStr u2) g1)"
        by (cases "find_nodes l2 ''url'' (VStr u2) g1") auto
      have "a \<notin> set (find_nodes l2 ''url'' (VStr u2) g)" using emp by simp
      from graph_run_new_match [OF wf run u l2 ne a this] obtain L where
        L: "L \<in> set (links q)" "link_node ps L (nodes g1 ! a)" by blast
      from L(2) obtain v where n: "nodes g1 ! a = fresh_node (tlabel L) (tkey L) v (stub L)"
        unfolding link_node_def by blast
      have "matches l2 ''url'' (VStr u2) (nodes g1 ! a)" using a by (simp add: find_nodes_matches)
      then have "tkey L = ''url''" using n by (auto split: if_splits)
      then have "stub L" using getQueryForLabel_url_stub [OF q L(1)] by simp
      then have "has_label ''Placeholder'' (nodes g1 ! a)" using n by simp
      moreover have "hydrated g1 a" using hy1 a by blast
      ultimately show False by (simp add: hydrated_def)
    qed
    have same: "find_nodes l2 ''url'' (VStr u2) g1 = find_nodes l2 ''url'' (VStr u2) g"
      using graph_run_keep [OF wf run l2 _ ex] by simp
    have hy: "hydrated g a" if a: "a \<in> set (find_nodes l2 ''url'' (VStr u2) g)" for a
    proof -
      have al: "a < length (nodes g)" and am: "matches l2 ''url'' (VStr u2) (nodes g ! a)"
        using a by (simp_all add: find_nodes_matches)
      have h1: "hydrated g1 a" using hy1 same a by simp
      have "a \<notin> set (find_nodes (anchor q) ''url'' (VStr u) g)"
      proof
        assume "a \<in> set (find_nodes (anchor q) ''url'' (VStr u) g)"
        then have bm: "matches l ''url'' (VStr u) (nodes g ! a)"
          using qf(2) by (simp add: find_nodes_matches)
        have "nodes g ! a \<in> set (nodes g)" using al by simp
        then have "l2 = l"
          using one am bm l2 qf(4) unfolding one_kind_def matches_def has_label_def by blast
        moreover have "u2 = u" using am bm by (simp add: matches_def)
        ultimately show False using False k2' by simp
      qed
      from graph_run_old_other [OF wf run u al this] h1 al show ?thesis
        by (simp add: hydrated_def)
    qed
    have "key_done g k2" using ex hy k2' by (simp add: key_done_def)
    then have "has_node g k3" using ln k2 k3 unfolding linked_def by blast
    moreover have "fst k3 \<noteq> ''Placeholder''"
      using key_label [OF src doc_refs_in [OF src k2 k3]] .
    ultimately show ?thesis using graph_run_has_node [OF wf run] by blast
  qed
qed

subsection \<open>Every reachable key is hydrated at the end\<close>

lemma reachable_key:
  assumes "source_ok api K" "reachable api K g k"
  shows "k \<in> set K"
  using assms(2)
proof (induction rule: reachable.induct)
  case (start k)
  then show ?case by simp
next
  case (step k k')
  then show ?case using doc_refs_in [OF assms(1)] by blast
qed

lemma reachable_done:
  assumes src: "source_ok api K" and ph: "placeholders g' = []" and ln: "linked api K g'"
    and mono: "\<forall>k \<in> set K. has_node g k \<longrightarrow> has_node g' k"
    and r: "reachable api K g k"
  shows "key_done g' k"
  using r
proof (induction rule: reachable.induct)
  case (start k)
  then show ?case using mono no_placeholders_done [OF ph] by blast
next
  case (step k k')
  have "k \<in> set K" using reachable_key [OF src step.hyps(1)] .
  then have "has_node g' k'" using ln step.IH step.hyps(2) unfolding linked_def by blast
  then show ?case using no_placeholders_done [OF ph] by blast
qed

lemma crawl_reaches:
  assumes src: "source_ok api K" and lists: "source_lists_ok api K"
    and fr: "frontier_ok K g" and one: "one_kind g" and ln: "linked api K g"
  shows "\<exists>g'. crawl api rnd (card (set K)) g = Some (Done g') \<and> placeholders g' = [] \<and>
           one_kind g' \<and> linked api K g' \<and> (\<forall>k. reachable api K g k \<longrightarrow> key_done g' k)"
proof -
  let ?I = "\<lambda>h. one_kind h \<and> linked api K h \<and> (\<forall>k \<in> set K. has_node g k \<longrightarrow> has_node h k)"
  have c: "card {k \<in> set K. \<not> key_done g k} \<le> card (set K)"
    by (intro card_mono) auto
  have I0: "?I g" using one ln by blast
  have "\<exists>g'. crawl api rnd (card (set K)) g = Some (Done g') \<and> placeholders g' = [] \<and> ?I g'"
  proof (rule crawl_invariant [where I = ?I and rnd = rnd, OF src _ fr I0 c])
    fix h l u q ps g1
    assume I: "?I h" and k: "(l, u) \<in> set K" and q: "getQueryForLabel (Some l) = Inr q"
      and ps: "http_get api (VStr u) = Inr ps" and run: "graph_run q ps h = Inr g1"
    have wf: "wf_query q" using getQueryForLabel_Inr [OF q] wf_swapi_queries by blast
    have 1: "one_kind g1" using graph_run_one_kind [OF wf run] I by blast
    have 2: "linked api K g1" using upsert_linked [OF src lists k q ps run] I by blast
    have 3: "has_node g1 k'" if "k' \<in> set K" "has_node g k'" for k'
    proof -
      have "has_node h k'" using I that by blast
      then show ?thesis using graph_run_has_node [OF wf run key_label [OF src that(1)]] by blast
    qed
    show "?I g1" using 1 2 3 by blast
  qed
  then obtain g' where
    g': "crawl api rnd (card (set K)) g = Some (Done g')" "placeholders g' = []" "?I g'"
    by blast
  have "key_done g' k" if "reachable api K g k" for k
    using reachable_done [OF src g'(2) _ _ that] g'(3) by blast
  then show ?thesis using g' by blast
qed

subsection \<open>The sample runs, evaluated\<close>

lemmas run_defs = graph_run_def missing_params_def query_params_def copy_def
  MERGE1_def find_nodes_def matches_def has_label_def prop_of_def fresh_node_def add_node_def
  SET_def REMOVE_def update_node_def set_props_def set_prop_def remove_label_def
  run_link_def UNWIND_def WITH_def CREATE_UNIQUE_def CREATE_UNIQUE1_def

lemma luke_run: "graph_run CREATE_PERSON_QUERY luke empty_graph = Inr luke_graph"
  by (simp add: run_defs CREATE_PERSON_QUERY_def luke_def empty_graph_def luke_graph_def)

lemma luke_no_starships_run:
  "graph_run CREATE_PERSON_QUERY (luke(''starships'' \<mapsto> VList [])) empty_graph
     = Inr luke_no_starships_graph"
  by (simp add: run_defs CREATE_PERSON_QUERY_def luke_def empty_graph_def
      luke_no_starships_graph_def luke_graph_def)

lemma film_run: "graph_run CREATE_MOVIE_QUERY film empty_graph = Inr film_graph"
  by (simp add: run_defs CREATE_MOVIE_QUERY_def film_def empty_graph_def film_graph_def parse_int_def)

lemma blank_director_run:
  "graph_run CREATE_MOVIE_QUERY (film(''director'' \<mapsto> VStr '''')) empty_graph
     = Inr blank_director_graph"
  by (simp add: run_defs CREATE_MOVIE_QUERY_def film_def empty_graph_def film_graph_def
      blank_director_graph_def parse_int_def)

lemma find_luke_graph:
  "FIND_NEW_ENTITY_QUERY 0 luke_graph = Some (VStr ''https://swapi.co/api/planets/1/'', Some ''Planet'')"
  by (simp add: FIND_NEW_ENTITY_QUERY_def placeholders_def luke_graph_def has_label_def upt_rec
      prop_of_def type_of_def)

lemma http_url_swapi [simp]:
  "http_url (CHR ''h'' # CHR ''t'' # CHR ''t'' # CHR ''p'' # CHR ''s'' # CHR '':'' # CHR ''/'' # CHR ''/'' # s)"
  "http_url (CHR ''h'' # CHR ''t'' # CHR ''t'' # CHR ''p'' # CHR '':'' # CHR ''/'' # CHR ''/'' # s)"
  by (simp_all add: http_url_def blank_def lower_def)

lemmas source_defs = source_ok_def getQueryForLabel_def doc_ok_def http_get_def refs_in_def
  missing_params_def query_params_def copy_def CREATE_PERSON_QUERY_def CREATE_PLANET_QUERY_def
  CREATE_VEHICLE_QUERY_def tiny_person_def tiny_planet_def tiny_vehicle_def

lemma tiny_source_ok: "source_ok tiny_api tiny_keys"
  by (simp add: source_defs tiny_keys_def tiny_api_def)

lemma tiny_frontier_ok: "frontier_ok tiny_keys tiny_start"
  by (simp add: frontier_ok_def tiny_keys_def tiny_start_def has_label_def type_of_def prop_of_def)

lemma tiny_lists_ok: "source_lists_ok tiny_api tiny_keys"
  by (simp add: source_lists_ok_def lists_ok_def tiny_keys_def tiny_api_def getQueryForLabel_def
      http_get_def CREATE_PERSON_QUERY_def CREATE_PLANET_QUERY_def tiny_person_def
      tiny_planet_def nth_Cons' less_Suc_eq numeral_eq_Suc)

lemma tiny_one_kind: "one_kind tiny_start"
  by (simp add: one_kind_def tiny_start_def)

lemma tiny_linked: "linked api tiny_keys tiny_start"
  by (simp add: linked_def key_done_def tiny_keys_def tiny_start_def find_nodes_def matches_def
      has_label_def prop_of_def hydrated_def)

lemma tiny_person_node: "has_node tiny_start (''Person'', ''https://swapi.co/api/people/1/'')"
  by (simp add: has_node_def tiny_start_def find_nodes_def matches_def has_label_def prop_of_def)

lemma tiny_reachable:
  "reachable tiny_api tiny_keys tiny_start (''Planet'', ''https://swapi.co/api/planets/1/'')"
proof (rule reachable.step)
  show "reachable tiny_api tiny_keys tiny_start (''Person'', ''https://swapi.co/api/people/1/'')"
    using tiny_person_node by (intro reachable.start) (simp_all add: tiny_keys_def)
  show "(''Planet'', ''https://swapi.co/api/planets/1/'')
      \<in> set (doc_refs tiny_api (''Person'', ''https://swapi.co/api/people/1/''))"
    by (simp add: doc_refs_def refs_def getQueryForLabel_def http_get_def tiny_api_def
        CREATE_PERSON_QUERY_def tiny_person_def)
qed

lemma tiny_find:
  "FIND_NEW_ENTITY_QUERY 0 tiny_start = Some (VStr ''https://swapi.co/api/people/1/'', Some ''Person'')"
  by (simp add: FIND_NEW_ENTITY_QUERY_def placeholders_def tiny_start_def has_label_def
      prop_of_def type_of_def)

text \<open>The two cycles of the crawl on the small sources.\<close>

lemma tiny_person_run:
  "graph_run CREATE_PERSON_QUERY tiny_person tiny_start = Inr tiny_mid"
  by (simp add: run_defs CREATE_PERSON_QUERY_def tiny_person_def tiny_start_def tiny_mid_def
      tiny_end_def)

lemma driver_person_run:
  "graph_run CREATE_PERSON_QUERY
     (tiny_person(''vehicles'' \<mapsto> VList [''https://swapi.co/api/vehicles/30/''])) tiny_start
   = Inr tiny_mid"
  by (simp add: run_defs CREATE_PERSON_QUERY_def tiny_person_def tiny_start_def tiny_mid_def
      tiny_end_def)

lemma tiny_planet_run: "graph_run CREATE_PLANET_QUERY tiny_planet tiny_mid = Inr tiny_end"
  by (simp add: run_defs CREATE_PLANET_QUERY_def tiny_planet_def tiny_mid_def tiny_end_def)

lemma tiny_mid_find:
  "FIND_NEW_ENTITY_QUERY r tiny_mid = Some (VStr ''https://swapi.co/api/planets/1/'', Some ''Planet'')"
  by (simp add: FIND_NEW_ENTITY_QUERY_def placeholders_def tiny_mid_def tiny_end_def has_label_def
      prop_of_def type_of_def upt_rec)

lemma tiny_end_find: "FIND_NEW_ENTITY_QUERY r tiny_end = None"
  by (simp add: FIND_NEW_ENTITY_QUERY_def placeholders_def tiny_end_def has_label_def upt_rec)

lemma tiny_crawl: "crawl tiny_api (\<lambda>i. 0) (Suc (Suc n)) tiny_start = Some (Done tiny_end)"
proof -
  have 3: "crawl tiny_api (\<lambda>i. 0) m tiny_end = Some (Done tiny_end)" for m
    by (rule crawl_Done) (rule tiny_end_find)
  have 2: "crawl tiny_api (\<lambda>i. 0) (Suc m) tiny_mid = Some (Done tiny_end)" for m
    by (subst crawl.simps)
       (simp del: crawl.simps add: tiny_mid_find http_get_def tiny_api_def getQueryForLabel_def tiny_planet_run 3)
  show ?thesis
    by (subst crawl.simps)
       (simp del: crawl.simps add: tiny_find http_get_def tiny_api_def getQueryForLabel_def tiny_person_run 2)
qed

lemma driver_crawl: "crawl driver_api (\<lambda>i. 0) (Suc (Suc n)) tiny_start = Some (Done tiny_end)"
proof -
  have 3: "crawl driver_api (\<lambda>i. 0) m tiny_end = Some (Done tiny_end)" for m
    by (rule crawl_Done) (rule tiny_end_find)
  have 2: "crawl driver_api (\<lambda>i. 0) (Suc m) tiny_mid = Some (Done tiny_end)" for m
    by (subst crawl.simps)
       (simp del: crawl.simps add: tiny_mid_find http_get_def driver_api_def getQueryForLabel_def tiny_planet_run 3)
  show ?thesis
    by (subst crawl.simps)
       (simp del: crawl.simps add: tiny_find http_get_def driver_api_def getQueryForLabel_def driver_person_run 2)
qed

lemma driver_source_ok: "source_ok driver_api driver_keys"
  by (simp add: source_defs driver_keys_def tiny_keys_def driver_api_def)

lemma driver_frontier_ok: "frontier_ok driver_keys tiny_start"
  by (simp add: frontier_ok_def driver_keys_def tiny_keys_def tiny_start_def has_label_def
      type_of_def prop_of_def)

lemma driver_reachable:
  "reachable driver_api driver_keys tiny_start (''Vehicle'', ''https://swapi.co/api/vehicles/30/'')"
proof (rule reachable.step)
  show "reachable driver_api driver_keys tiny_start (''Person'', ''https://swapi.co/api/people/1/'')"
    using tiny_person_node by (intro reachable.start) (simp_all add: driver_keys_def tiny_keys_def)
  show "(''Vehicle'', ''https://swapi.co/api/vehicles/30/'')
      \<in> set (doc_refs driver_api (''Person'', ''https://swapi.co/api/people/1/''))"
    by (simp add: doc_refs_def refs_def getQueryForLabel_def http_get_def driver_api_def
        CREATE_PERSON_QUERY_def tiny_person_def)
qed

section \<open>The claims\<close>

text \<open>
  C1. For every document \<open>ps\<close> and each of the six upsert queries, running the upsert a
  second time leaves the store exactly as the first run left it: nodes, labels,
  properties and relationships are the same, so nothing is duplicated or changed. (An
  upsert that raises writes nothing, both times.)
\<close>

theorem upsert_idempotent:
  "q \<in> set swapi_queries \<Longrightarrow> store_after q ps (store_after q ps g) = store_after q ps g"
proof (cases "graph_run q ps g")
  case (Inl e)
  then show ?thesis by (simp add: store_after_def)
next
  case (Inr g')
  assume "q \<in> set swapi_queries"
  then have "graph_run q ps g' = Inr g'"
    using graph_run_idem [OF wf_swapi_queries Inr] by simp
  then show ?thesis using Inr by (simp add: store_after_def)
qed

theorem upsert_idempotent_witness:
  "CREATE_PERSON_QUERY \<in> set swapi_queries \<and>
   store_after CREATE_PERSON_QUERY luke (store_after CREATE_PERSON_QUERY luke empty_graph) =
     store_after CREATE_PERSON_QUERY luke empty_graph"
  using upsert_idempotent [of CREATE_PERSON_QUERY luke empty_graph]
  by (simp add: swapi_queries_def)

text \<open>
  C2. Hydration is monotonic: a node that does not carry the label \<open>Placeholder\<close>
  does not carry it after any sequence of upserts, whatever the queries and documents
  (of that entity or of entities that reference it).
\<close>

theorem hydration_monotonic: "hydrated g i \<Longrightarrow> hydrated (upserts us g) i"
  unfolding upserts_def
  by (induction us arbitrary: g) (auto intro: store_after_hydrated)

theorem hydration_monotonic_witness:
  "hydrated luke_graph 0 \<and>
   hydrated (upserts [(CREATE_MOVIE_QUERY, film), (CREATE_PERSON_QUERY, luke)] luke_graph) 0"
  using hydration_monotonic [of luke_graph 0 "[(CREATE_MOVIE_QUERY, film), (CREATE_PERSON_QUERY, luke)]"]
  by (simp add: hydrated_def luke_graph_def has_label_def)

text \<open>
  C3. A document whose single-valued field \<open>f\<close> is null or absent. Where a query
  merges on that field (the person's \<open>homeworld\<close>; also the manufacturer and the class
  of a starship or vehicle), the database refuses to merge on null, or misses the
  parameter: the call raises and the transaction writes nothing, so no stub entity and
  no relationship is created for the field. The Species query never reads
  \<open>homeworld\<close>: a Species upsert creates no relationship and no Planet node.
\<close>

theorem null_reference_no_stub:
  assumes null: "ps f = None \<or> ps f = Some VNull"
  shows "(\<forall>q \<in> set swapi_queries. \<forall>j < length (links q).
            src (links q ! j) = Single (Param f) \<longrightarrow>
            (\<exists>e. graph_run q ps g = Inl e) \<and> store_after q ps g = g) \<and>
         rels (store_after CREATE_SPECIES_QUERY ps g) = rels g \<and>
         (\<forall>n \<in> set (created g (store_after CREATE_SPECIES_QUERY ps g)). \<not> has_label ''Planet'' n)"
proof (intro conjI ballI allI impI)
  fix q j
  assume q: "q \<in> set swapi_queries" and j: "j < length (links q)"
    "src (links q ! j) = Single (Param f)"
  have pre: "\<forall>i<j. \<exists>e. src (links q ! i) = Single e"
    using swapi_single_prefix [OF q j] .
  show "\<exists>e. graph_run q ps g = Inl e"
    using null j pre
    by (rule graph_run_null_single [where ps = ps and f = f and q = q and j = j and g = g])
  then show "store_after q ps g = g" by (auto simp add: store_after_def)
next
  have l: "links CREATE_SPECIES_QUERY = []" "anchor CREATE_SPECIES_QUERY = ''Species''"
    by (simp_all add: CREATE_SPECIES_QUERY_def)
  show "rels (store_after CREATE_SPECIES_QUERY ps g) = rels g"
  proof (cases "graph_run CREATE_SPECIES_QUERY ps g")
    case (Inl e)
    then show ?thesis by (simp add: store_after_def)
  next
    case (Inr g')
    then show ?thesis using graph_run_no_links [OF Inr l(1)] by (simp add: store_after_def)
  qed
  show "\<not> has_label ''Planet'' n"
    if "n \<in> set (created g (store_after CREATE_SPECIES_QUERY ps g))" for n
    using store_after_created [OF that] l by (auto simp add: has_label_def)
qed

theorem null_reference_no_stub_witness:
  "(luke(''homeworld'' \<mapsto> VNull)) ''homeworld'' = Some VNull \<and>
   CREATE_PERSON_QUERY \<in> set swapi_queries \<and>
   src (links CREATE_PERSON_QUERY ! 0) = Single (Param ''homeworld'') \<and>
   store_after CREATE_PERSON_QUERY (luke(''homeworld'' \<mapsto> VNull)) luke_graph = luke_graph \<and>
   rels (store_after CREATE_SPECIES_QUERY (luke(''homeworld'' \<mapsto> VNull)) luke_graph)
     = rels luke_graph"
proof -
  have q: "CREATE_PERSON_QUERY \<in> set swapi_queries" by (simp add: swapi_queries_def)
  have j: "0 < length (links CREATE_PERSON_QUERY)"
    "src (links CREATE_PERSON_QUERY ! 0) = Single (Param ''homeworld'')"
    by (simp_all add: CREATE_PERSON_QUERY_def)
  have n: "(luke(''homeworld'' \<mapsto> VNull)) ''homeworld'' = None \<or>
    (luke(''homeworld'' \<mapsto> VNull)) ''homeworld'' = Some VNull" by simp
  from null_reference_no_stub [where ps = "luke(''homeworld'' \<mapsto> VNull)"
      and f = "''homeworld''" and g = luke_graph, OF n] q j
  show ?thesis by auto
qed

text \<open>
  C8. Every tag node an upsert creates has exactly its tag label and one property, the
  name or type it was merged on (no \<open>url\<close>, no \<open>Placeholder\<close>). So no tag node ever
  carries \<open>Placeholder\<close>, none is among the nodes the selection query ranges over, and
  the selection never returns a tag kind as type.
\<close>

theorem tags_keyed_by_value_and_hydrated:
  assumes q: "q \<in> set swapi_queries" and run: "graph_run q ps g = Inr g'"
  shows "(\<forall>n \<in> set (created g g'). is_tag n \<longrightarrow>
            (\<exists>t v. t \<in> set tag_kinds \<and> v \<noteq> VNull \<and> n = \<lparr>labels = [t], props = [(tag_key t, v)]\<rparr>)) \<and>
         (tags_hydrated g \<longrightarrow>
            tags_hydrated g' \<and>
            (\<forall>i \<in> set (placeholders g'). \<not> is_tag (nodes g' ! i)) \<and>
            (\<forall>r u t. FIND_NEW_ENTITY_QUERY r g' = Some (u, Some t) \<longrightarrow> t \<notin> set tag_kinds))"
proof (intro conjI ballI impI allI)
  fix n assume "n \<in> set (created g g')" "is_tag n"
  then show "\<exists>t v. t \<in> set tag_kinds \<and> v \<noteq> VNull \<and> n = \<lparr>labels = [t], props = [(tag_key t, v)]\<rparr>"
    using created_tag [OF q run] by blast
next
  assume th: "tags_hydrated g"
  show th': "tags_hydrated g'"
    unfolding tags_hydrated_def
  proof (intro ballI impI)
    fix n assume n: "n \<in> set (nodes g')" "is_tag n"
    then obtain i where i: "i < length (nodes g')" "nodes g' ! i = n"
      by (auto simp add: in_set_conv_nth)
    show "\<not> has_label ''Placeholder'' n"
    proof (cases "i < length (nodes g)")
      case True
      let ?Q = "\<lambda>n. is_tag n \<longrightarrow> \<not> has_label ''Placeholder'' n"
      have "?Q (nodes g ! i)" using th True by (simp add: tags_hydrated_def)
      then have "?Q (nodes g' ! i)"
        using True
        by (intro graph_run_old_inv [OF run, where Q = ?Q, THEN conjunct2])
           (auto simp add: is_tag_def has_label_def set_prop_def remove_label_def)
      then show ?thesis using i n(2) by simp
    next
      case False
      then have "n \<in> set (created g g')" using created_nth [of g i g'] i by simp
      from created_tag [OF q run this n(2)] show ?thesis
        using placeholder_not_tag by (auto simp add: has_label_def)
    qed
  qed
  show "\<not> is_tag (nodes g' ! i)" if "i \<in> set (placeholders g')" for i
    using that th' by (auto simp add: placeholders_iff tags_hydrated_def)
  then show "t \<notin> set tag_kinds" if "FIND_NEW_ENTITY_QUERY r g' = Some (u, Some t)" for r u t
    using FIND_NEW_ENTITY_QUERY_Some [OF that] type_of_label [of _ t]
    by (metis is_tag_def)
qed

theorem tags_keyed_by_value_and_hydrated_witness:
  "CREATE_MOVIE_QUERY \<in> set swapi_queries \<and>
   graph_run CREATE_MOVIE_QUERY film empty_graph = Inr film_graph \<and>
   tags_hydrated empty_graph \<and> tags_hydrated film_graph \<and>
   nodes film_graph ! 2 \<in> set (created empty_graph film_graph) \<and>
   is_tag (nodes film_graph ! 2) \<and>
   nodes film_graph ! 2 = \<lparr>labels = [''Director''], props = [(''name'', VStr '' Rick Marshall'')]\<rparr>"
  using tags_keyed_by_value_and_hydrated [of CREATE_MOVIE_QUERY film empty_graph film_graph]
    film_run
  by (simp add: swapi_queries_def tags_hydrated_def empty_graph_def created_def film_graph_def
      is_tag_def tag_kinds_def has_label_def)

text \<open>
  C10. The Person query does not name the parameter \<open>films\<close>, and the Species query
  names none of \<open>homeworld\<close>, \<open>people\<close>, \<open>films\<close>: the result of the upsert is the
  same whatever these fields hold. A Person upsert creates no \<open>APPEARS_IN\<close>
  relationship and no Film node; a Species upsert creates no relationship at all and
  no node but its own. Among the six queries only the film query creates \<open>APPEARS_IN\<close>
  relationships and only the Person query creates \<open>IS_SPECIES\<close> relationships.
\<close>

theorem person_and_species_frame:
  "graph_run CREATE_PERSON_QUERY (ps(''films'' := x)) g = graph_run CREATE_PERSON_QUERY ps g \<and>
   graph_run CREATE_SPECIES_QUERY (ps(''homeworld'' := x, ''people'' := y, ''films'' := z)) g
     = graph_run CREATE_SPECIES_QUERY ps g \<and>
   rels_of_type ''APPEARS_IN'' (store_after CREATE_PERSON_QUERY ps g) = rels_of_type ''APPEARS_IN'' g \<and>
   (\<forall>n \<in> set (created g (store_after CREATE_PERSON_QUERY ps g)). \<not> has_label ''Film'' n) \<and>
   rels (store_after CREATE_SPECIES_QUERY ps g) = rels g \<and>
   (\<forall>n \<in> set (created g (store_after CREATE_SPECIES_QUERY ps g)). set (labels n) \<subseteq> {''Species''}) \<and>
   (\<forall>q \<in> set swapi_queries.
      (q \<noteq> CREATE_MOVIE_QUERY \<longrightarrow>
         rels_of_type ''APPEARS_IN'' (store_after q ps g) = rels_of_type ''APPEARS_IN'' g) \<and>
      (q \<noteq> CREATE_PERSON_QUERY \<longrightarrow>
         rels_of_type ''IS_SPECIES'' (store_after q ps g) = rels_of_type ''IS_SPECIES'' g))"
proof (intro conjI ballI impI)
  show "graph_run CREATE_PERSON_QUERY (ps(''films'' := x)) g = graph_run CREATE_PERSON_QUERY ps g"
    by (rule graph_run_cong) (simp add: query_params_def CREATE_PERSON_QUERY_def copy_def)
  show "graph_run CREATE_SPECIES_QUERY (ps(''homeworld'' := x, ''people'' := y, ''films'' := z)) g
     = graph_run CREATE_SPECIES_QUERY ps g"
    by (rule graph_run_cong) (simp add: query_params_def CREATE_SPECIES_QUERY_def copy_def)
  show "rels_of_type ''APPEARS_IN'' (store_after CREATE_PERSON_QUERY ps g) = rels_of_type ''APPEARS_IN'' g"
    by (rule store_after_rels_of_type) (simp add: CREATE_PERSON_QUERY_def)
  show "\<not> has_label ''Film'' n" if "n \<in> set (created g (store_after CREATE_PERSON_QUERY ps g))" for n
  proof -
    from store_after_created [OF that]
    consider "set (labels n) \<subseteq> {anchor CREATE_PERSON_QUERY}"
      | L v where "L \<in> set (links CREATE_PERSON_QUERY)" "n = fresh_node (tlabel L) (tkey L) v (stub L)"
      unfolding link_node_def by blast
    then show ?thesis
      by cases (auto simp add: CREATE_PERSON_QUERY_def has_label_def fresh_node_def)
  qed
  have "rels_of_type t (store_after CREATE_SPECIES_QUERY ps g) = rels_of_type t g" for t
    by (rule store_after_rels_of_type) (simp add: CREATE_SPECIES_QUERY_def)
  show "rels (store_after CREATE_SPECIES_QUERY ps g) = rels g"
  proof (cases "graph_run CREATE_SPECIES_QUERY ps g")
    case (Inl e)
    then show ?thesis by (simp add: store_after_def)
  next
    case (Inr g')
    have "links CREATE_SPECIES_QUERY = []" by (simp add: CREATE_SPECIES_QUERY_def)
    then have "rels g' = rels g" using graph_run_no_links [OF Inr] by simp
    then show ?thesis using Inr by (simp add: store_after_def)
  qed
  show "set (labels n) \<subseteq> {''Species''}"
    if "n \<in> set (created g (store_after CREATE_SPECIES_QUERY ps g))" for n
    using store_after_created [OF that] by (simp add: CREATE_SPECIES_QUERY_def)
  show "rels_of_type ''APPEARS_IN'' (store_after q ps g) = rels_of_type ''APPEARS_IN'' g"
    if "q \<in> set swapi_queries" "q \<noteq> CREATE_MOVIE_QUERY" for q
  proof (rule store_after_rels_of_type)
    show "''APPEARS_IN'' \<notin> set (map rtype (links q))"
      using that
      by (auto simp add: swapi_queries_def CREATE_PERSON_QUERY_def CREATE_PLANET_QUERY_def
          CREATE_SPECIES_QUERY_def CREATE_STARSHIP_QUERY_def CREATE_VEHICLE_QUERY_def)
  qed
  show "rels_of_type ''IS_SPECIES'' (store_after q ps g) = rels_of_type ''IS_SPECIES'' g"
    if "q \<in> set swapi_queries" "q \<noteq> CREATE_PERSON_QUERY" for q
  proof (rule store_after_rels_of_type)
    show "''IS_SPECIES'' \<notin> set (map rtype (links q))"
      using that
      by (auto simp add: swapi_queries_def CREATE_MOVIE_QUERY_def CREATE_PLANET_QUERY_def
          CREATE_SPECIES_QUERY_def CREATE_STARSHIP_QUERY_def CREATE_VEHICLE_QUERY_def)
  qed
qed

theorem person_and_species_frame_witness:
  "CREATE_PERSON_QUERY \<in> set swapi_queries \<and> CREATE_PERSON_QUERY \<noteq> CREATE_MOVIE_QUERY \<and>
   graph_run CREATE_PERSON_QUERY (luke(''films'' := None)) empty_graph = Inr luke_graph \<and>
   rels_of_type ''APPEARS_IN'' (store_after CREATE_PERSON_QUERY luke empty_graph) = [] \<and>
   nodes luke_graph ! 1 \<in> set (created empty_graph (store_after CREATE_PERSON_QUERY luke empty_graph)) \<and>
   \<not> has_label ''Film'' (nodes luke_graph ! 1)"
  using person_and_species_frame [of luke None empty_graph] luke_run
  by (simp add: swapi_queries_def CREATE_PERSON_QUERY_def CREATE_MOVIE_QUERY_def
      rels_of_type_def empty_graph_def store_after_def created_def luke_graph_def has_label_def)

text \<open>
  C9 (as amended). Upserting the sample document of \<open>people/1\<close> into the empty store
  yields exactly \<open>luke_graph\<close>: the hydrated Person node, the Planet stub with its
  \<open>IS_FROM\<close> relationship, the Species stub with \<open>IS_SPECIES\<close>, and the two Starship
  and two Vehicle stubs with \<open>PILOTS\<close>; the six stubs are the unhydrated nodes.
  Upserting the same document again changes nothing.
\<close>

theorem sample_person_upsert:
  "graph_run CREATE_PERSON_QUERY luke empty_graph = Inr luke_graph \<and>
   placeholders luke_graph = [1, 2, 3, 4, 5, 6] \<and>
   graph_run CREATE_PERSON_QUERY luke luke_graph = Inr luke_graph"
proof -
  have "CREATE_PERSON_QUERY \<in> set swapi_queries" by (simp add: swapi_queries_def)
  then have "graph_run CREATE_PERSON_QUERY luke luke_graph = Inr luke_graph"
    using graph_run_idem [OF wf_swapi_queries luke_run] by simp
  moreover have "placeholders luke_graph = [1, 2, 3, 4, 5, 6]"
    by (simp add: placeholders_def luke_graph_def has_label_def upt_rec)
  ultimately show ?thesis using luke_run by simp
qed

text \<open>
  C9 as stated fails: the store holds seven nodes, not four; among them a Species stub
  and Vehicle stubs with their relationships.
\<close>

theorem sample_person_upsert_counterexample:
  "length (nodes (store_after CREATE_PERSON_QUERY luke empty_graph)) = 7 \<and>
   nodes (store_after CREATE_PERSON_QUERY luke empty_graph) ! 2 =
     \<lparr>labels = [''Species'', ''Placeholder''],
        props = [(''url'', VStr ''https://swapi.co/api/species/1/'')]\<rparr> \<and>
   (0, ''IS_SPECIES'', 2) \<in> set (rels (store_after CREATE_PERSON_QUERY luke empty_graph)) \<and>
   nodes (store_after CREATE_PERSON_QUERY luke empty_graph) ! 5 =
     \<lparr>labels = [''Vehicle'', ''Placeholder''],
        props = [(''url'', VStr ''https://swapi.co/api/vehicles/14/'')]\<rparr> \<and>
   (0, ''PILOTS'', 5) \<in> set (rels (store_after CREATE_PERSON_QUERY luke empty_graph))"
  using luke_run by (simp add: store_after_def luke_graph_def)

text \<open>
  C7 fails on an input the code can receive. The document of \<open>people/1\<close> with an empty
  \<open>starships\<close> list still lists two vehicles; its upsert into the empty store succeeds
  and leaves the Person, the Planet stub and the Species stub only: \<open>UNWIND\<close> of the
  empty list leaves no row, and the block for the vehicles runs on no row. No Vehicle
  entity and no \<open>PILOTS\<close> relationship exists afterwards.
\<close>

theorem empty_list_skips_later_blocks:
  "(luke(''starships'' \<mapsto> VList [])) ''vehicles'' =
     Some (VList [''https://swapi.co/api/vehicles/14/'', ''https://swapi.co/api/vehicles/30/'']) \<and>
   graph_run CREATE_PERSON_QUERY (luke(''starships'' \<mapsto> VList [])) empty_graph
     = Inr luke_no_starships_graph \<and>
   find_nodes ''Vehicle'' ''url'' (VStr ''https://swapi.co/api/vehicles/14/'')
     luke_no_starships_graph = [] \<and>
   find_nodes ''Vehicle'' ''url'' (VStr ''https://swapi.co/api/vehicles/30/'')
     luke_no_starships_graph = [] \<and>
   rels luke_no_starships_graph = [(0, ''IS_FROM'', 1), (0, ''IS_SPECIES'', 2)]"
  using luke_no_starships_run
  by (simp add: luke_def find_nodes_def luke_no_starships_graph_def luke_graph_def matches_def
      has_label_def)

text \<open>
  C4 (as amended). For every comma-joined field (\<open>director\<close>, \<open>producer\<close>, \<open>climate\<close>,
  \<open>terrain\<close>: the blocks that unwind \<open>split({f}, ",")\<close>) that holds a string \<open>s\<close>, the
  comma-joined fields before it in the query holding strings too, and every upsert that
  does not raise. The pieces are \<open>s\<close> cut at its commas and nothing else: no piece
  holds a comma, there is one piece more than \<open>s\<close> has commas, and the pieces joined
  by commas are \<open>s\<close> again, so nothing is trimmed and no blank or empty piece is
  dropped. After the upsert every piece, as it is, names a tag entity of the block's
  kind that is linked to the upserted entity by the block's relationship; and a tag
  entity of that kind the upsert created is named by one of the pieces, so never by a
  string with a comma in it.
\<close>

theorem comma_fields_split_verbatim:
  assumes q: "q \<in> set swapi_queries" and run: "graph_run q ps g = Inr g'"
    and j: "j < length (links q)" "src (links q ! j) = Unwind (Split (Param f) CHR '','')"
    and before: "\<forall>i<j. \<exists>f' s'. src (links q ! i) = Unwind (Split (Param f') CHR '','') \<and>
                   ps f' = Some (VStr s')"
    and f: "ps f = Some (VStr s)"
  shows "join_on CHR '','' (split_on CHR '','' s) = s \<and>
    length (split_on CHR '','' s) = Suc (count_list s CHR '','') \<and>
    (\<forall>x \<in> set (split_on CHR '','' s). CHR '','' \<notin> set x) \<and>
    find_nodes (anchor q) ''url'' (the (ps ''url'')) g' \<noteq> [] \<and>
    (\<forall>x \<in> set (split_on CHR '','' s).
       \<forall>a \<in> set (find_nodes (anchor q) ''url'' (the (ps ''url'')) g').
         \<exists>m. m \<in> set (find_nodes (tlabel (links q ! j)) (tkey (links q ! j)) (VStr x) g') \<and>
             edge (rdir (links q ! j)) a (rtype (links q ! j)) m \<in> set (rels g')) \<and>
    (\<forall>n \<in> set (created g g'). has_label (tlabel (links q ! j)) n \<longrightarrow>
       (\<exists>y \<in> set (split_on CHR '','' s). CHR '','' \<notin> set y \<and>
          n = fresh_node (tlabel (links q ! j)) (tkey (links q ! j)) (VStr y) (stub (links q ! j))))"
proof -
  let ?L = "links q ! j"
  have wf: "wf_query q" using q by (rule wf_swapi_queries)
  from run obtain u where u: "ps ''url'' = Some u" by (rule graph_run_shape)
  have vs: "source_vals ps (src ?L) = Inr (map VStr (split_on CHR '','' s))"
    using j(2) f by simp
  have bf: "\<forall>i<j. \<exists>ws. source_vals ps (src (links q ! i)) = Inr ws \<and> ws \<noteq> []"
  proof (intro allI impI)
    fix i assume "i < j"
    then obtain f' s' where "src (links q ! i) = Unwind (Split (Param f') CHR '','')"
      "ps f' = Some (VStr s')" using before by blast
    then have "source_vals ps (src (links q ! i)) = Inr (map VStr (split_on CHR '','' s'))"
      by simp
    then show "\<exists>ws. source_vals ps (src (links q ! i)) = Inr ws \<and> ws \<noteq> []"
      using split_on_nonempty by auto
  qed
  from graph_run_anchor(4) [OF wf run u] obtain rows g2 where
    rows: "set rows = set (find_nodes (anchor q) ''url'' u g')"
    and ls: "run_links ps (links q) rows g2 = Inr g'"
    by blast
  have 1: "find_nodes (anchor q) ''url'' (the (ps ''url'')) g' \<noteq> []"
    using graph_run_anchor(1) [OF wf run u] u by simp
  have 2: "\<exists>m. m \<in> set (find_nodes (tlabel ?L) (tkey ?L) (VStr x) g') \<and>
             edge (rdir ?L) a (rtype ?L) m \<in> set (rels g')"
    if x: "x \<in> set (split_on CHR '','' s)"
      and a: "a \<in> set (find_nodes (anchor q) ''url'' (the (ps ''url'')) g')" for x a
  proof (rule run_links_post [OF ls j(1) bf vs])
    show "a \<in> set rows" using a rows u by simp
    show "VStr x \<in> set (map VStr (split_on CHR '','' s))" using x by simp
  qed
  have 3: "\<exists>y \<in> set (split_on CHR '','' s). n = fresh_node (tlabel ?L) (tkey ?L) (VStr y) (stub ?L)"
    if n: "n \<in> set (created g g')" and l: "has_label (tlabel ?L) n" for n
  proof -
    have Lin: "?L \<in> set (links q)" using j(1) by simp
    have "tlabel ?L \<in> set (map tlabel (links q))" using Lin by simp
    moreover have "anchor q \<notin> set (map tlabel (links q))"
      "''Placeholder'' \<notin> set (map tlabel (links q))"
      using wf by (simp_all add: wf_query_def)
    ultimately have nap: "tlabel ?L \<noteq> anchor q" "tlabel ?L \<noteq> ''Placeholder''"
      by metis+
    from graph_run_created [OF run] n
    consider "set (labels n) \<subseteq> {anchor q}"
      | L' where "L' \<in> set (links q)" "link_node ps L' n"
      by blast
    then show ?thesis
    proof cases
      case 1
      then show ?thesis using l nap by (auto simp add: has_label_def)
    next
      case 2
      from 2(2) obtain ws v where
        v: "source_vals ps (src L') = Inr ws" "v \<in> set ws"
           "n = fresh_node (tlabel L') (tkey L') v (stub L')"
        unfolding link_node_def by blast
      have "tlabel L' = tlabel ?L" using l v(3) nap by auto
      moreover have "inj_on tlabel (set (links q))"
        using wf by (simp add: wf_query_def distinct_map)
      ultimately have "L' = ?L" using 2(1) Lin by (auto dest: inj_onD)
      then show ?thesis using v vs by auto
    qed
  qed
  have 4: "\<exists>y \<in> set (split_on CHR '','' s). CHR '','' \<notin> set y \<and>
      n = fresh_node (tlabel ?L) (tkey ?L) (VStr y) (stub ?L)"
    if "n \<in> set (created g g')" "has_label (tlabel ?L) n" for n
    using 3 [OF that] split_on_no_delim [of _ "CHR '',''" s] by blast
  have 5: "join_on CHR '','' (split_on CHR '','' s) = s" by (rule split_on_join)
  have 6: "length (split_on CHR '','' s) = Suc (count_list s CHR '','')" by (rule split_on_length)
  have 7: "\<forall>x \<in> set (split_on CHR '','' s). CHR '','' \<notin> set x"
    using split_on_no_delim by blast
  show ?thesis
  proof (intro conjI ballI impI)
    show "join_on CHR '','' (split_on CHR '','' s) = s" by (rule 5)
    show "length (split_on CHR '','' s) = Suc (count_list s CHR '','')" by (rule 6)
    show "CHR '','' \<notin> set x" if "x \<in> set (split_on CHR '','' s)" for x using 7 that by blast
    show "find_nodes (anchor q) ''url'' (the (ps ''url'')) g' \<noteq> []" by (rule 1)
    show "\<exists>m. m \<in> set (find_nodes (tlabel ?L) (tkey ?L) (VStr x) g') \<and>
             edge (rdir ?L) a (rtype ?L) m \<in> set (rels g')"
      if "x \<in> set (split_on CHR '','' s)"
        "a \<in> set (find_nodes (anchor q) ''url'' (the (ps ''url'')) g')" for x a
      using 2 [OF that] .
    show "\<exists>y \<in> set (split_on CHR '','' s). CHR '','' \<notin> set y \<and>
        n = fresh_node (tlabel ?L) (tkey ?L) (VStr y) (stub ?L)"
      if "n \<in> set (created g g')" "has_label (tlabel ?L) n" for n
      using 4 [OF that] .
  qed
qed

theorem comma_fields_split_verbatim_witness:
  "CREATE_MOVIE_QUERY \<in> set swapi_queries \<and>
   graph_run CREATE_MOVIE_QUERY film empty_graph = Inr film_graph \<and>
   film ''director'' = Some (VStr ''George Lucas, Rick Marshall'') \<and>
   split_on CHR '','' ''George Lucas, Rick Marshall'' = [''George Lucas'', '' Rick Marshall''] \<and>
   join_on CHR '','' [''George Lucas'', '' Rick Marshall''] = ''George Lucas, Rick Marshall'' \<and>
   find_nodes ''Film'' ''url'' (VStr ''https://swapi.co/api/films/1/'') film_graph = [0] \<and>
   (\<exists>m. m \<in> set (find_nodes ''Director'' ''name'' (VStr ''George Lucas'') film_graph) \<and>
        edge Outgoing 0 ''DIRECTED_BY'' m \<in> set (rels film_graph)) \<and>
   (\<exists>m. m \<in> set (find_nodes ''Director'' ''name'' (VStr '' Rick Marshall'') film_graph) \<and>
        edge Outgoing 0 ''DIRECTED_BY'' m \<in> set (rels film_graph))"
proof -
  have q: "CREATE_MOVIE_QUERY \<in> set swapi_queries" by (simp add: swapi_queries_def)
  have j: "0 < length (links CREATE_MOVIE_QUERY)"
    "src (links CREATE_MOVIE_QUERY ! 0) = Unwind (Split (Param ''director'') CHR '','')"
    by (simp_all add: CREATE_MOVIE_QUERY_def)
  have b: "\<forall>i<0::nat. \<exists>f' s'. src (links CREATE_MOVIE_QUERY ! i) = Unwind (Split (Param f') CHR '','') \<and>
                   film f' = Some (VStr s')" by simp
  have f: "film ''director'' = Some (VStr ''George Lucas, Rick Marshall'')"
    by (simp add: film_def)
  have s: "split_on CHR '','' ''George Lucas, Rick Marshall'' = [''George Lucas'', '' Rick Marshall'']"
    by simp
  have u: "the (film ''url'') = VStr ''https://swapi.co/api/films/1/''"
    by (simp add: film_def)
  have l: "anchor CREATE_MOVIE_QUERY = ''Film''" "tlabel (links CREATE_MOVIE_QUERY ! 0) = ''Director''"
    "tkey (links CREATE_MOVIE_QUERY ! 0) = ''name''" "rdir (links CREATE_MOVIE_QUERY ! 0) = Outgoing"
    "rtype (links CREATE_MOVIE_QUERY ! 0) = ''DIRECTED_BY''"
    by (simp_all add: CREATE_MOVIE_QUERY_def)
  have a: "find_nodes ''Film'' ''url'' (VStr ''https://swapi.co/api/films/1/'') film_graph = [0]"
    by (simp add: find_nodes_def film_graph_def matches_def has_label_def prop_of_def upt_rec)
  from comma_fields_split_verbatim [OF q film_run j b f]
  show ?thesis using q film_run f s a unfolding u l s by simp
qed

text \<open>
  C4 as stated fails: the second director is stored under the name \<open>" Rick Marshall"\<close>,
  with the blank that followed the comma, and a film whose director field is the empty
  string gets a Director entity with the empty name.
\<close>

theorem comma_fields_trim_counterexample:
  "nodes (store_after CREATE_MOVIE_QUERY film empty_graph) ! 2 =
     \<lparr>labels = [''Director''], props = [(''name'', VStr '' Rick Marshall'')]\<rparr> \<and>
   (0, ''DIRECTED_BY'', 2) \<in> set (rels (store_after CREATE_MOVIE_QUERY film empty_graph)) \<and>
   nodes (store_after CREATE_MOVIE_QUERY (film(''director'' \<mapsto> VStr '''')) empty_graph) ! 1 =
     \<lparr>labels = [''Director''], props = [(''name'', VStr '''')]\<rparr> \<and>
   (0, ''DIRECTED_BY'', 1)
     \<in> set (rels (store_after CREATE_MOVIE_QUERY (film(''director'' \<mapsto> VStr '''')) empty_graph))"
  using film_run blank_director_run
  by (simp add: store_after_def film_graph_def blank_director_graph_def)

text \<open>
  C5 (as amended). The crawl loop handles no failure. When the fetch for the selected
  entity fails, or \<open>getQueryForLabel\<close> does not know its kind, or the database rejects
  the document, the exception ends the loop in that cycle: there is no retry and no
  failed status, and the store stays as the last completed cycle left it (the entity is
  still a placeholder).
\<close>

theorem crawl_failure_aborts:
  assumes sel: "FIND_NEW_ENTITY_QUERY (rnd 0) g = Some (url, label)"
    and fail: "http_get api url = Inl e \<or>
       (\<exists>ps. http_get api url = Inr ps \<and>
          (getQueryForLabel label = Inl e \<or>
           (\<exists>q. getQueryForLabel label = Inr q \<and> graph_run q ps g = Inl e)))"
  shows "crawl api rnd (Suc n) g = Some (Crashed e g)"
  using sel fail by (subst crawl.simps) auto

theorem crawl_failure_aborts_witness:
  "FIND_NEW_ENTITY_QUERY 0 luke_graph = Some (VStr ''https://swapi.co/api/planets/1/'', Some ''Planet'') \<and>
   http_get api_down (VStr ''https://swapi.co/api/planets/1/'') = Inl RequestFailed \<and>
   crawl api_down (\<lambda>i. 0) (Suc 2) luke_graph = Some (Crashed RequestFailed luke_graph)"
  using crawl_failure_aborts [of "\<lambda>i. 0" luke_graph "VStr ''https://swapi.co/api/planets/1/''"
      "Some ''Planet''" api_down RequestFailed 2] find_luke_graph
  by (simp add: http_get_def api_down_def)

text \<open>
  C5 as stated fails: with the remote side down, or answering "not found", the loop
  crashes in its first cycle on the store that the sample Person upsert leaves.
\<close>

theorem crawl_crashes_counterexample:
  "crawl api_down (\<lambda>i. 0) 3 luke_graph = Some (Crashed RequestFailed luke_graph) \<and>
   crawl api_not_found (\<lambda>i. 0) 3 luke_graph = Some (Crashed (ParameterMissing ''url'') luke_graph)"
proof -
  have 1: "crawl api_down (\<lambda>i. 0) 3 luke_graph = Some (Crashed RequestFailed luke_graph)"
    by (subst crawl.simps) (simp add: find_luke_graph http_get_def api_down_def)
  have "graph_run CREATE_PLANET_QUERY (map_of [(''detail'', VStr ''Not found'')]) luke_graph
      = Inl (ParameterMissing ''url'')"
    by (simp add: graph_run_def missing_params_def query_params_def)
  then have 2: "crawl api_not_found (\<lambda>i. 0) 3 luke_graph
      = Some (Crashed (ParameterMissing ''url'') luke_graph)"
    by (subst crawl.simps)
       (simp add: find_luke_graph http_get_def api_not_found_def getQueryForLabel_def)
  show ?thesis using 1 2 by simp
qed

text \<open>
  C6 (as amended). Let \<open>K\<close> be a finite set of keys that the source serves
  (\<open>source_ok\<close>: the URL is one the HTTP library accepts, the document is complete and
  carries its own key, nothing merged on is null, references inside \<open>K\<close>), and let
  the unhydrated entities of the store be keys of \<open>K\<close>. Then the crawl loop, whatever
  the random selection draws, reaches \<open>Done\<close> within as many cycles as \<open>K\<close> has
  keys, it does not crash, and at \<open>Done\<close> no entity of the store is unhydrated. In
  each cycle the selected entity is a key of \<open>K\<close>, its fetch and its upsert succeed,
  the key is done afterwards and was not before, every key that was done stays done,
  and the unhydrated entities are keys of \<open>K\<close> again.

  Every reachable entity is hydrated at \<open>Done\<close> under three more conditions: in every
  served document a list that is empty or null is followed by empty or null lists only
  (an empty list ends the query for the lists after it), every node of the start store
  has one kind, and the references of what the start store holds hydrated already have
  nodes. Then every key reachable from the keys in the start store through the
  references of the served documents has a node at \<open>Done\<close> and is hydrated.
\<close>

theorem crawl_converges:
  assumes "source_ok api K" "frontier_ok K g"
  shows "(\<exists>g'. crawl api rnd (card (set K)) g = Some (Done g') \<and> placeholders g' = [] \<and>
            (source_lists_ok api K \<and> one_kind g \<and> linked api K g \<longrightarrow>
               (\<forall>k. reachable api K g k \<longrightarrow> key_done g' k))) \<and>
    (\<forall>r url label. FIND_NEW_ENTITY_QUERY r g = Some (url, label) \<longrightarrow>
       (\<exists>l u q ps g1. url = VStr u \<and> label = Some l \<and> (l, u) \<in> set K \<and>
          http_get api (VStr u) = Inr ps \<and>
          getQueryForLabel (Some l) = Inr q \<and> graph_run q ps g = Inr g1 \<and>
          frontier_ok K g1 \<and> \<not> key_done g (l, u) \<and> key_done g1 (l, u) \<and>
          (\<forall>k \<in> set K. key_done g k \<longrightarrow> key_done g1 k)))"
proof (intro conjI allI impI)
  show "\<exists>g'. crawl api rnd (card (set K)) g = Some (Done g') \<and> placeholders g' = [] \<and>
            (source_lists_ok api K \<and> one_kind g \<and> linked api K g \<longrightarrow>
               (\<forall>k. reachable api K g k \<longrightarrow> key_done g' k))"
  proof (cases "source_lists_ok api K \<and> one_kind g \<and> linked api K g")
    case True
    then show ?thesis using crawl_reaches [OF assms(1) _ assms(2), of rnd] by blast
  next
    case False
    have c: "card {k \<in> set K. \<not> key_done g k} \<le> card (set K)"
      by (intro card_mono) auto
    from crawl_invariant [where I = "\<lambda>h. True" and rnd = rnd, OF assms(1) _ assms(2) _ c]
    show ?thesis using False by auto
  qed
next
  fix r url label
  assume "FIND_NEW_ENTITY_QUERY r g = Some (url, label)"
  then show "\<exists>l u q ps g1. url = VStr u \<and> label = Some l \<and> (l, u) \<in> set K \<and>
          http_get api (VStr u) = Inr ps \<and>
          getQueryForLabel (Some l) = Inr q \<and> graph_run q ps g = Inr g1 \<and>
          frontier_ok K g1 \<and> \<not> key_done g (l, u) \<and> key_done g1 (l, u) \<and>
          (\<forall>k \<in> set K. key_done g k \<longrightarrow> key_done g1 k)"
    by (rule crawl_step [OF assms])
qed

theorem crawl_converges_witness:
  "source_ok tiny_api tiny_keys \<and> frontier_ok tiny_keys tiny_start \<and>
   source_lists_ok tiny_api tiny_keys \<and> one_kind tiny_start \<and>
   linked tiny_api tiny_keys tiny_start \<and> card (set tiny_keys) = 2 \<and>
   reachable tiny_api tiny_keys tiny_start (''Planet'', ''https://swapi.co/api/planets/1/'') \<and>
   crawl tiny_api (\<lambda>i. 0) 2 tiny_start = Some (Done tiny_end) \<and>
   placeholders tiny_end = [] \<and>
   key_done tiny_end (''Planet'', ''https://swapi.co/api/planets/1/'')"
proof -
  have c: "card (set tiny_keys) = 2" by (simp add: tiny_keys_def)
  have e: "crawl tiny_api (\<lambda>i. 0) 2 tiny_start = Some (Done tiny_end)"
    using tiny_crawl [of 0] by (simp add: numeral_2_eq_2)
  from crawl_converges [OF tiny_source_ok tiny_frontier_ok, of "\<lambda>i. 0", THEN conjunct1]
  obtain g' where g': "crawl tiny_api (\<lambda>i. 0) 2 tiny_start = Some (Done g')"
    "placeholders g' = []"
    "source_lists_ok tiny_api tiny_keys \<and> one_kind tiny_start \<and>
       linked tiny_api tiny_keys tiny_start \<longrightarrow>
     (\<forall>k. reachable tiny_api tiny_keys tiny_start k \<longrightarrow> key_done g' k)"
    unfolding c by blast
  have "g' = tiny_end" using g'(1) e by simp
  then show ?thesis
    using g' e c tiny_source_ok tiny_frontier_ok tiny_lists_ok tiny_one_kind tiny_linked
      tiny_reachable
    by blast
qed

text \<open>
  C6 as stated fails, in two ways. A source of one key, a person whose homeworld is
  null: the selected person is fetched, the database refuses the merge on null, and the
  loop ends with that exception in its first cycle; it does not reach \<open>Done\<close>, and
  the person is neither hydrated nor marked in any way. And a source of three keys
  that are all served, a person who pilots no starship and drives one vehicle: the
  loop reaches \<open>Done\<close> after the person and the planet, and the vehicle, which the
  person's document refers to, has no node at all, since the empty \<open>starships\<close> list
  ended the person's upsert before the vehicles.
\<close>

theorem crawl_null_reference_counterexample:
  "FIND_NEW_ENTITY_QUERY 0 tiny_start
     = Some (VStr ''https://swapi.co/api/people/1/'', Some ''Person'') \<and>
   crawl no_homeworld_api (\<lambda>i. 0) 1 tiny_start
     = Some (Crashed (MergeNullProperty ''url'') tiny_start) \<and>
   crawl no_homeworld_api (\<lambda>i. 0) 5 tiny_start
     = Some (Crashed (MergeNullProperty ''url'') tiny_start) \<and>
   placeholders tiny_start = [0] \<and>
   source_ok driver_api driver_keys \<and> frontier_ok driver_keys tiny_start \<and>
   card (set driver_keys) = 3 \<and>
   reachable driver_api driver_keys tiny_start
     (''Vehicle'', ''https://swapi.co/api/vehicles/30/'') \<and>
   crawl driver_api (\<lambda>i. 0) 3 tiny_start = Some (Done tiny_end) \<and>
   find_nodes ''Vehicle'' ''url'' (VStr ''https://swapi.co/api/vehicles/30/'') tiny_end = []"
proof -
  have r: "graph_run CREATE_PERSON_QUERY (tiny_person(''homeworld'' \<mapsto> VNull)) tiny_start
      = Inl (MergeNullProperty ''url'')"
    by (simp add: run_defs CREATE_PERSON_QUERY_def tiny_person_def tiny_start_def)
  have c: "crawl no_homeworld_api (\<lambda>i. 0) (Suc n) tiny_start
      = Some (Crashed (MergeNullProperty ''url'') tiny_start)" for n
    by (subst crawl.simps)
       (simp add: tiny_find r http_get_def no_homeworld_api_def getQueryForLabel_def)
  have p: "placeholders tiny_start = [0]"
    by (simp add: placeholders_def tiny_start_def has_label_def)
  have k: "card (set driver_keys) = 3" by (simp add: driver_keys_def tiny_keys_def)
  have d: "crawl driver_api (\<lambda>i. 0) 3 tiny_start = Some (Done tiny_end)"
    using driver_crawl [of 1] by (simp add: numeral_3_eq_3)
  have v: "find_nodes ''Vehicle'' ''url'' (VStr ''https://swapi.co/api/vehicles/30/'') tiny_end = []"
    by (simp add: find_nodes_def tiny_end_def matches_def has_label_def)
  show ?thesis
    using tiny_find c [of 0] c [of 4] p driver_source_ok driver_frontier_ok k driver_reachable d v
    by (simp add: numeral_eq_Suc)
qed

end
